theory Spec2Isabelle
  imports Main "HOL-Library.Sublist" "HOL-Library.Char_ord" "HOL-Library.List_Lexorder"
begin

section \<open>Python strings\<close>

text \<open>
  The program is \<^verbatim>\<open>src/todo_cli.py\<close>. A Python \<^verbatim>\<open>str\<close> is modelled as a
  \<^typ>\<open>string\<close>, each \<^typ>\<open>char\<close> standing for the code point of the same number
  (U+0000 to U+00FF); text with code points beyond U+00FF is outside the model. The
  character classes below are those of CPython for that range. A file is modelled by the
  text that \<^verbatim>\<open>read_text\<close> returns and \<^verbatim>\<open>write_text\<close> receives; the coding of
  that text on disk (UTF-8, newline translation) is not modelled.
\<close>

definition code :: "char \<Rightarrow> nat" where
  "code c = of_char c"

text \<open>\<^verbatim>\<open>str.isspace\<close>, also the class \<^verbatim>\<open>\s\<close> of \<^verbatim>\<open>re\<close> and what \<^verbatim>\<open>str.strip()\<close> removes.\<close>

definition is_space :: "char \<Rightarrow> bool" where
  "is_space c = (let n = code c in
     (9 \<le> n \<and> n \<le> 13) \<or> (28 \<le> n \<and> n \<le> 32) \<or> n = 133 \<or> n = 160)"

text \<open>The line boundaries of \<^verbatim>\<open>str.splitlines\<close>: LF, VT, FF, CR, FS, GS, RS, NEL.\<close>

definition is_linebreak :: "char \<Rightarrow> bool" where
  "is_linebreak c = (let n = code c in
     (10 \<le> n \<and> n \<le> 13) \<or> (28 \<le> n \<and> n \<le> 30) \<or> n = 133)"

text \<open>The class \<^verbatim>\<open>\d\<close> of \<^verbatim>\<open>re\<close> (decimal digits).\<close>

definition is_digit :: "char \<Rightarrow> bool" where
  "is_digit c = (let n = code c in 48 \<le> n \<and> n \<le> 57)"

definition is_octdigit :: "char \<Rightarrow> bool" where
  "is_octdigit c = (let n = code c in 48 \<le> n \<and> n \<le> 55)"

definition is_ascii_letter :: "char \<Rightarrow> bool" where
  "is_ascii_letter c = (let n = code c in (65 \<le> n \<and> n \<le> 90) \<or> (97 \<le> n \<and> n \<le> 122))"

text \<open>The class \<^verbatim>\<open>\w\<close> of \<^verbatim>\<open>re\<close> on \<^verbatim>\<open>str\<close>: alphanumeric characters and the underscore.\<close>

definition is_word :: "char \<Rightarrow> bool" where
  "is_word c = (let n = code c in
     (48 \<le> n \<and> n \<le> 57) \<or> (65 \<le> n \<and> n \<le> 90) \<or> n = 95 \<or> (97 \<le> n \<and> n \<le> 122) \<or>
     n = 170 \<or> n = 178 \<or> n = 179 \<or> n = 181 \<or> n = 185 \<or> n = 186 \<or>
     (188 \<le> n \<and> n \<le> 190) \<or> (192 \<le> n \<and> n \<le> 214) \<or> (216 \<le> n \<and> n \<le> 246) \<or>
     (248 \<le> n \<and> n \<le> 255))"

text \<open>\<^verbatim>\<open>str.lower\<close>, character by character.\<close>

definition lower_char :: "char \<Rightarrow> char" where
  "lower_char c = (let n = code c in
     if (65 \<le> n \<and> n \<le> 90) \<or> (192 \<le> n \<and> n \<le> 222 \<and> n \<noteq> 215) then char_of (n + 32) else c)"

definition lower :: "string \<Rightarrow> string" where
  "lower s = map lower_char s"

text \<open>\<^verbatim>\<open>str.strip()\<close>: leading and trailing whitespace removed.\<close>

definition strip :: "string \<Rightarrow> string" where
  "strip s = rev (dropWhile is_space (rev (dropWhile is_space s)))"

text \<open>
  \<^verbatim>\<open>str.splitlines()\<close>: the text is cut at every line boundary, CR LF counting as one;
  the boundaries are dropped, and a boundary at the very end opens no further line.
\<close>

fun after_break :: "char \<Rightarrow> string \<Rightarrow> string" where
  "after_break c [] = []"
| "after_break c (d # ds) = (if code c = 13 \<and> code d = 10 then ds else d # ds)"

lemma length_after_break: "length (after_break c cs) \<le> length cs"
  by (cases cs) auto

function splitlines :: "string \<Rightarrow> string list" where
  "splitlines [] = []"
| "splitlines (c # cs) =
     (if is_linebreak c then [] # splitlines (after_break c cs)
      else (case splitlines cs of [] \<Rightarrow> [[c]] | l # ls \<Rightarrow> (c # l) # ls))"
  by pat_completeness auto
termination
  by (relation "measure length") (auto simp: length_after_break less_Suc_eq_le)

text \<open>\<^verbatim>\<open>sep.join(xs)\<close>.\<close>

fun join :: "string \<Rightarrow> string list \<Rightarrow> string" where
  "join sep [] = []"
| "join sep [x] = x"
| "join sep (x # y # ys) = x @ sep @ join sep (y # ys)"

text \<open>\<^verbatim>\<open>str(n)\<close> for an integer, as an f-string renders it.\<close>

definition digit_char :: "nat \<Rightarrow> char" where
  "digit_char d = char_of (48 + d)"

fun str_nat :: "nat \<Rightarrow> string" where
  "str_nat n = (if n < 10 then [digit_char n] else str_nat (n div 10) @ [digit_char (n mod 10)])"

declare str_nat.simps [simp del]

definition str_int :: "int \<Rightarrow> string" where
  "str_int i = (if i < 0 then CHR ''-'' # str_nat (nat (- i)) else str_nat (nat i))"

text \<open>
  \<^verbatim>\<open>s.find(pat)\<close> as a split: the text before the first occurrence of \<open>pat\<close> and the
  text after it, or \<open>None\<close> when \<open>pat\<close> does not occur. \<^verbatim>\<open>pat in s\<close> is \<open>contains\<close>.
\<close>

fun find_sub :: "string \<Rightarrow> string \<Rightarrow> (string \<times> string) option" where
  "find_sub pat [] = (if pat = [] then Some ([], []) else None)"
| "find_sub pat (c # cs) =
     (if prefix pat (c # cs) then Some ([], drop (length pat) (c # cs))
      else map_option (\<lambda>(a, b). (c # a, b)) (find_sub pat cs))"

definition contains :: "string \<Rightarrow> string \<Rightarrow> bool" where
  "contains pat s = (find_sub pat s \<noteq> None)"

section \<open>Exceptions\<close>

text \<open>
  What a command can raise: \<^verbatim>\<open>typer.BadParameter\<close>, \<^verbatim>\<open>typer.Exit(code)\<close>, and the
  uncaught exceptions \<^verbatim>\<open>AttributeError\<close> and the error of a malformed replacement
  template of \<^verbatim>\<open>re.sub\<close> (\<^verbatim>\<open>re.error\<close> or \<^verbatim>\<open>IndexError\<close>).
\<close>

datatype py_exc = BadParameter | Exit nat | AttributeError | TemplateError

section \<open>The TODO block\<close>

text \<open>The two markers (lines 12 and 13); \<open>CHR 0x27\<close> is the single quote.\<close>

definition TODO_START :: string where
  "TODO_START = [CHR 0x27, CHR 0x27, CHR 0x27] @ '' <---TODO LIST - START--->''"

definition TODO_END :: string where
  "TODO_END = ''<---TODO LIST - END--->'' @ [CHR 0x27, CHR 0x27, CHR 0x27]"

text \<open>
  \<^verbatim>\<open>pattern.search(text)\<close>: the regex engine tries the pattern at every position of
  the text from left to right and returns the first match. \<open>m\<close> is the pattern
  anchored at the head of its argument, giving what it captured and the text left after
  the match; the search adds the text before the match.
\<close>

fun re_search :: "(string \<Rightarrow> ('a \<times> string) option) \<Rightarrow> string \<Rightarrow> (string \<times> 'a \<times> string) option" where
  "re_search m [] = map_option (\<lambda>(g, r). ([], g, r)) (m [])"
| "re_search m (c # cs) =
     (case m (c # cs) of
        Some (g, r) \<Rightarrow> Some ([], g, r)
      | None \<Rightarrow> map_option (\<lambda>(p, g, r). (c # p, g, r)) (re_search m cs))"

text \<open>
  The pattern \<^verbatim>\<open>START(.*?)END\<close> with \<^verbatim>\<open>re.DOTALL\<close>, anchored: the start marker, then
  the lazy \<^verbatim>\<open>.*?\<close> grows one character at a time until the end marker follows, so it
  stops at the first end marker after the start marker. The capture is the text between.
\<close>

definition match_block :: "string \<Rightarrow> (string \<times> string) option" where
  "match_block s =
     (if prefix TODO_START s then find_sub TODO_END (drop (length TODO_START) s) else None)"

definition search_block :: "string \<Rightarrow> (string \<times> string \<times> string) option" where
  "search_block text = re_search match_block text"

text \<open>\<^verbatim>\<open>parse_todo_block\<close> (lines 18 to 27).\<close>

definition parse_todo_block :: "string \<Rightarrow> string list option" where
  "parse_todo_block text =
     (case search_block text of
        None \<Rightarrow> None
      | Some (pre, inner, post) \<Rightarrow>
          (let content = strip inner in Some (if content \<noteq> [] then splitlines content else [])))"

text \<open>
  \<^verbatim>\<open>ensure_todo_block\<close> (lines 29 to 35) on the text of the file: whether a block was
  appended, and the text of the file afterwards.
\<close>

definition ensure_todo_block :: "string \<Rightarrow> bool \<times> string" where
  "ensure_todo_block text =
     (if contains TODO_START text \<and> contains TODO_END text then (False, text)
      else (True, text @ ''\<newline>'' @ TODO_START @ ''\<newline>'' @ TODO_END @ ''\<newline>''))"

section \<open>Task lines\<close>

text \<open>\<^verbatim>\<open>format_priority\<close> (lines 37 to 39).\<close>

definition format_priority :: "int option \<Rightarrow> string" where
  "format_priority level =
     (if level = Some 1 then ''[LOW]''
      else if level = Some 2 then ''[MEDIUM]''
      else if level = Some 3 then ''[HIGH]''
      else if level = Some 4 then ''[URGENT]''
      else [])"

text \<open>
  \<^verbatim>\<open>datetime.strptime(due, "%Y-%m-%d")\<close>. The library turns the format into the regex
  \<^verbatim>\<open>(?P<Y>\d\d\d\d)-(?P<m>1[0-2]|0[1-9]|[1-9])-(?P<d>3[0-1]|[1-2]\d|0[1-9]|[1-9]| [1-9])\<close>,
  matches it at the start of the string, raises \<^verbatim>\<open>ValueError\<close> when it does not match or
  when text is left after the match, and then builds the date, which raises
  \<^verbatim>\<open>ValueError\<close> for a year below 1 or a day the month does not have. An alternation
  is a list of the ways it can match, in the order the backtracking engine tries them:
  each way gives the number read and the text left.
\<close>

definition digit_val :: "char \<Rightarrow> nat" where
  "digit_val c = code c - 48"

definition in_range :: "char \<Rightarrow> char \<Rightarrow> char \<Rightarrow> bool" where
  "in_range lo hi c = (code lo \<le> code c \<and> code c \<le> code hi)"

fun year_alts :: "string \<Rightarrow> (nat \<times> string) list" where
  "year_alts (a # b # c # d # r) =
     (if is_digit a \<and> is_digit b \<and> is_digit c \<and> is_digit d
      then [(1000 * digit_val a + 100 * digit_val b + 10 * digit_val c + digit_val d, r)] else [])"
| "year_alts _ = []"

fun two_chars :: "(char \<Rightarrow> bool) \<Rightarrow> (char \<Rightarrow> bool) \<Rightarrow> string \<Rightarrow> (nat \<times> string) list" where
  "two_chars p q (a # b # r) = (if p a \<and> q b then [(10 * digit_val a + digit_val b, r)] else [])"
| "two_chars p q _ = []"

fun one_char :: "(char \<Rightarrow> bool) \<Rightarrow> string \<Rightarrow> (nat \<times> string) list" where
  "one_char p (a # r) = (if p a then [(digit_val a, r)] else [])"
| "one_char p _ = []"

fun space_digit :: "string \<Rightarrow> (nat \<times> string) list" where
  "space_digit (a # b # r) =
     (if a = CHR '' '' \<and> in_range CHR ''1'' CHR ''9'' b then [(digit_val b, r)] else [])"
| "space_digit _ = []"

definition month_alts :: "string \<Rightarrow> (nat \<times> string) list" where
  "month_alts s =
     two_chars (\<lambda>c. c = CHR ''1'') (in_range CHR ''0'' CHR ''2'') s @
     two_chars (\<lambda>c. c = CHR ''0'') (in_range CHR ''1'' CHR ''9'') s @
     one_char (in_range CHR ''1'' CHR ''9'') s"

definition day_alts :: "string \<Rightarrow> (nat \<times> string) list" where
  "day_alts s =
     two_chars (\<lambda>c. c = CHR ''3'') (in_range CHR ''0'' CHR ''1'') s @
     two_chars (in_range CHR ''1'' CHR ''2'') is_digit s @
     two_chars (\<lambda>c. c = CHR ''0'') (in_range CHR ''1'' CHR ''9'') s @
     one_char (in_range CHR ''1'' CHR ''9'') s @
     space_digit s"

fun dash :: "string \<Rightarrow> string list" where
  "dash (c # r) = (if c = CHR ''-'' then [r] else [])"
| "dash [] = []"

text \<open>All the ways the whole regex matches, in the engine's order; it takes the first.\<close>

definition ymd_matches :: "string \<Rightarrow> ((nat \<times> nat \<times> nat) \<times> string) list" where
  "ymd_matches s =
     concat (map (\<lambda>(y, r1). concat (map (\<lambda>r2.
       concat (map (\<lambda>(m, r3). concat (map (\<lambda>r4.
         map (\<lambda>(d, r5). ((y, m, d), r5)) (day_alts r4)) (dash r3))) (month_alts r2))) (dash r1)))
       (year_alts s))"

definition is_leap :: "nat \<Rightarrow> bool" where
  "is_leap y = (y mod 4 = 0 \<and> (y mod 100 \<noteq> 0 \<or> y mod 400 = 0))"

definition days_in_month :: "nat \<Rightarrow> nat \<Rightarrow> nat" where
  "days_in_month y m =
     (if m = 2 then (if is_leap y then 29 else 28)
      else if m = 4 \<or> m = 6 \<or> m = 9 \<or> m = 11 then 30 else 31)"

definition valid_date :: "nat \<Rightarrow> nat \<Rightarrow> nat \<Rightarrow> bool" where
  "valid_date y m d = (1 \<le> y \<and> y \<le> 9999 \<and> 1 \<le> m \<and> m \<le> 12 \<and> 1 \<le> d \<and> d \<le> days_in_month y m)"

text \<open>\<open>None\<close> is the \<^verbatim>\<open>ValueError\<close>.\<close>

definition strptime_ymd :: "string \<Rightarrow> (nat \<times> nat \<times> nat) option" where
  "strptime_ymd s =
     (case ymd_matches s of
        [] \<Rightarrow> None
      | ((y, m, d), rest) # _ \<Rightarrow>
          if rest \<noteq> [] then None else if valid_date y m d then Some (y, m, d) else None)"

text \<open>
  \<^verbatim>\<open>build_task_line\<close> (lines 41 to 54). \<^verbatim>\<open>if priority\<close> holds for an integer other
  than 0, \<^verbatim>\<open>if due\<close> and \<^verbatim>\<open>if assigned\<close> for a string that is not empty.
\<close>

definition build_task_line ::
  "int \<Rightarrow> string \<Rightarrow> int option \<Rightarrow> string option \<Rightarrow> string option \<Rightarrow> py_exc + string" where
  "build_task_line index task priority due assigned =
     (let parts = [''('' @ str_int index @ '')''];
          parts = (if priority \<noteq> None \<and> priority \<noteq> Some 0
                   then parts @ [format_priority priority] else parts);
          parts = parts @ [task];
          with_assigned = (\<lambda>parts.
            (case assigned of
               None \<Rightarrow> parts
             | Some a \<Rightarrow> if a \<noteq> [] then parts @ [''Assigned: '' @ a] else parts))
      in case due of
           None \<Rightarrow> Inr (join '' '' (with_assigned parts))
         | Some d \<Rightarrow>
             if d = [] then Inr (join '' '' (with_assigned parts))
             else (case strptime_ymd d of
                     None \<Rightarrow> Inl BadParameter
                   | Some _ \<Rightarrow> Inr (join '' '' (with_assigned (parts @ [''Due: '' @ d])))))"

section \<open>Rewriting the block\<close>

lemma find_sub_split: "find_sub pat s = Some (a, b) \<Longrightarrow> s = a @ pat @ b"
proof (induction s arbitrary: a b)
  case Nil
  then show ?case by (auto split: if_splits)
next
  case (Cons c cs)
  show ?case
  proof (cases "prefix pat (c # cs)")
    case True
    with Cons.prems have "a = []" "b = drop (length pat) (c # cs)" by auto
    moreover from True have "c # cs = pat @ drop (length pat) (c # cs)"
      by (metis append_eq_conv_conj prefixE)
    ultimately show ?thesis by simp
  next
    case False
    with Cons.prems obtain a' where "find_sub pat cs = Some (a', b)" "a = c # a'"
      by auto
    with Cons.IH show ?thesis by fastforce
  qed
qed

lemma find_sub_length: "find_sub pat s = Some (a, b) \<Longrightarrow> length b \<le> length s"
  by (drule find_sub_split) simp

lemma re_search_split:
  "re_search m s = Some (p, g, r) \<Longrightarrow> \<exists>t. s = p @ t \<and> m t = Some (g, r)"
proof (induction s arbitrary: p)
  case Nil
  then show ?case by auto
next
  case (Cons c cs)
  show ?case
  proof (cases "m (c # cs)")
    case None
    with Cons.prems obtain p' where "re_search m cs = Some (p', g, r)" "p = c # p'"
      by auto
    with Cons.IH show ?thesis by fastforce
  next
    case (Some a)
    with Cons.prems show ?thesis by (cases a) auto
  qed
qed

lemma match_block_split:
  "match_block s = Some (inner, post) \<Longrightarrow> s = TODO_START @ inner @ TODO_END @ post"
  unfolding match_block_def
  by (auto split: if_splits dest!: find_sub_split elim!: prefixE)

lemma search_block_split:
  "search_block text = Some (pre, inner, post) \<Longrightarrow>
   text = pre @ TODO_START @ inner @ TODO_END @ post"
  unfolding search_block_def
  by (auto dest!: re_search_split match_block_split)

text \<open>
  The replacement of \<^verbatim>\<open>re.sub\<close> is a template (\<^verbatim>\<open>parse_template\<close> of CPython 3.12's
  \<^verbatim>\<open>re._parser\<close>): a backslash starts an escape. The patterns substituted here have no
  group, so the only group a template can name is group 0, the whole match. \<open>None\<close> is
  the exception a malformed template raises; it is raised before any match is looked for.
\<close>

datatype tpl = Lit char | Whole

fun oct_val :: "string \<Rightarrow> nat" where
  "oct_val ds = foldl (\<lambda>v d. 8 * v + digit_val d) 0 ds"

definition escape_char :: "char \<Rightarrow> char option" where
  "escape_char e =
     (if e = CHR ''a'' then Some (char_of (7::nat))
      else if e = CHR ''b'' then Some (char_of (8::nat))
      else if e = CHR ''f'' then Some (char_of (12::nat))
      else if e = CHR ''n'' then Some (char_of (10::nat))
      else if e = CHR ''r'' then Some (char_of (13::nat))
      else if e = CHR ''t'' then Some (char_of (9::nat))
      else if e = CHR ''v'' then Some (char_of (11::nat))
      else if e = CHR 0x5C then Some (CHR 0x5C)
      else None)"

function parse_template :: "string \<Rightarrow> tpl list option" where
  "parse_template [] = Some []"
| "parse_template (c # cs) =
     (if c \<noteq> CHR 0x5C then map_option ((#) (Lit c)) (parse_template cs)
      else (case cs of
        [] \<Rightarrow> None
      | e # r \<Rightarrow>
          if e = CHR ''g'' then
            (case r of
               [] \<Rightarrow> None
             | l # r1 \<Rightarrow>
                 if l \<noteq> CHR ''<'' then None
                 else (case find_sub ''>'' r1 of
                         None \<Rightarrow> None
                       | Some (name, r2) \<Rightarrow>
                           if name \<noteq> [] \<and> list_all (\<lambda>d. d = CHR ''0'') name
                           then map_option ((#) Whole) (parse_template r2) else None))
          else if e = CHR ''0'' then
            (let ds = takeWhile is_octdigit (take 2 r)
             in map_option ((#) (Lit (char_of (oct_val ds mod 256))))
                  (parse_template (drop (length ds) r)))
          else if is_digit e then
            (case r of
               d2 # d3 # r3 \<Rightarrow>
                 if is_octdigit e \<and> is_octdigit d2 \<and> is_octdigit d3 \<and> oct_val [e, d2, d3] \<le> 255
                 then map_option ((#) (Lit (char_of (oct_val [e, d2, d3])))) (parse_template r3)
                 else None
             | _ \<Rightarrow> None)
          else (case escape_char e of
                  Some x \<Rightarrow> map_option ((#) (Lit x)) (parse_template r)
                | None \<Rightarrow>
                    if is_ascii_letter e then None
                    else map_option (\<lambda>t. Lit c # Lit e # t) (parse_template r))))"
  by pat_completeness auto
termination
  by (relation "measure length")
    (auto dest!: find_sub_length simp: less_Suc_eq_le)

definition expand :: "tpl list \<Rightarrow> string \<Rightarrow> string" where
  "expand t whole = concat (map (\<lambda>x. case x of Lit c \<Rightarrow> [c] | Whole \<Rightarrow> whole) t)"

text \<open>
  \<^verbatim>\<open>re.sub(START.*?END, repl, content, flags=re.DOTALL)\<close> with no \<^verbatim>\<open>count\<close>: every match
  is replaced, the search going on after the end of each match.
\<close>

function sub_block :: "tpl list \<Rightarrow> string \<Rightarrow> string" where
  "sub_block t text =
     (case search_block text of
        None \<Rightarrow> text
      | Some (pre, inner, post) \<Rightarrow>
          pre @ expand t (TODO_START @ inner @ TODO_END) @ sub_block t post)"
  by pat_completeness auto
termination
proof (relation "measure (\<lambda>(t, s). length s)", goal_cases)
  case 1
  show ?case by simp
next
  case (2 t s x p y inner post)
  then have "search_block s = Some (p, inner, post)" by simp
  then have "s = p @ TODO_START @ inner @ TODO_END @ post"
    by (rule search_block_split)
  then have "length post < length s"
    by (simp add: TODO_START_def)
  then show ?case by simp
qed

declare sub_block.simps [simp del]

definition re_sub_block :: "string \<Rightarrow> string \<Rightarrow> py_exc + string" where
  "re_sub_block repl content =
     (case parse_template repl of
        None \<Rightarrow> Inl TemplateError
      | Some t \<Rightarrow> Inr (sub_block t content))"

definition new_block :: "string list \<Rightarrow> string" where
  "new_block todos = TODO_START @ ''\<newline>'' @ join ''\<newline>'' todos @ ''\<newline>'' @ TODO_END"

text \<open>
  Writing the block back, as \<^verbatim>\<open>add\<close> does it (lines 176 to 185): the spec's
  \<^verbatim>\<open>write_block\<close>.
\<close>

definition write_block :: "string \<Rightarrow> string list \<Rightarrow> py_exc + string" where
  "write_block content todos =
     (if contains TODO_START content \<and> contains TODO_END content
      then re_sub_block (new_block todos) content
      else Inr (content @ ''\<newline>'' @ new_block todos))"

section \<open>The commands add and complete\<close>

text \<open>
  A file is its text, or \<open>None\<close> when the path does not exist. A command returns what
  it raised or what it reports, and the file as it leaves it.
\<close>

definition add ::
  "string option \<Rightarrow> string \<Rightarrow> int option \<Rightarrow> string option \<Rightarrow> string option \<Rightarrow>
   (py_exc + string) \<times> string option" where
  "add file task priority due assigned =
     (case file of
        None \<Rightarrow> (Inl (Exit 1), None)
      | Some text \<Rightarrow>
          (let (added, content) = ensure_todo_block text;
               todos = (case parse_todo_block content of None \<Rightarrow> [] | Some ts \<Rightarrow> ts);
               new_index = int (length todos) + 1
           in case build_task_line new_index task priority due assigned of
                Inl e \<Rightarrow> (Inl e, Some content)
              | Inr new_task_line \<Rightarrow>
                  (case write_block content (todos @ [new_task_line]) of
                     Inl e \<Rightarrow> (Inl e, Some content)
                   | Inr content' \<Rightarrow> (Inr new_task_line, Some content'))))"

text \<open>
  The pattern \<^verbatim>\<open>^\(\d+\)\<close> at the head of a line: an opening parenthesis, the longest
  run of digits, which must not be empty, and a closing parenthesis. The result is the
  text after the label.
\<close>

definition match_label :: "string \<Rightarrow> string option" where
  "match_label s =
     (case s of
        [] \<Rightarrow> None
      | c # r \<Rightarrow>
          if c = CHR ''('' \<and> takeWhile is_digit r \<noteq> [] then
            (case dropWhile is_digit r of
               [] \<Rightarrow> None
             | d # rest \<Rightarrow> if d = CHR '')'' then Some rest else None)
          else None)"

text \<open>\<^verbatim>\<open>re.sub(r"^\(\d+\)", f"({i+1})", todo)\<close> (line 213).\<close>

definition renumber :: "nat \<Rightarrow> string \<Rightarrow> string" where
  "renumber i todo =
     (case match_label todo of
        None \<Rightarrow> todo
      | Some rest \<Rightarrow> ''('' @ str_nat (i + 1) @ '')'' @ rest)"

text \<open>
  Lines 203 to 213 of \<^verbatim>\<open>complete\<close>, the spec's \<^verbatim>\<open>complete(lines, id)\<close>: the removed
  line and the remaining lines renumbered. The parameter \<^verbatim>\<open>id\<close> is \<open>tid\<close> here.
\<close>

definition complete_todos :: "string list \<Rightarrow> int \<Rightarrow> py_exc + (string \<times> string list)" where
  "complete_todos todos tid =
     (if todos = [] then Inl (Exit 1)
      else if tid < 0 \<or> tid \<ge> int (length todos) then Inl (Exit 1)
      else (let removed = todos ! nat tid;
                todos' = take (nat tid) todos @ drop (Suc (nat tid)) todos
            in Inr (removed, map (\<lambda>(i, todo). renumber i todo) (enumerate 0 todos'))))"

definition complete :: "string option \<Rightarrow> int \<Rightarrow> (py_exc + string) \<times> string option" where
  "complete file tid =
     (case file of
        None \<Rightarrow> (Inl (Exit 1), None)
      | Some content \<Rightarrow>
          (case parse_todo_block content of
             None \<Rightarrow> (Inl (Exit 1), file)
           | Some todos \<Rightarrow>
               (case complete_todos todos tid of
                  Inl e \<Rightarrow> (Inl e, file)
                | Inr (removed, updated_todos) \<Rightarrow>
                    (case re_sub_block (new_block updated_todos) content of
                       Inl e \<Rightarrow> (Inl e, file)
                     | Inr content' \<Rightarrow> (Inr removed, Some content')))))"

section \<open>Listing and sorting\<close>

text \<open>The pattern \<^verbatim>\<open>\d{4}-\d{2}-\d{2}\<close>.\<close>

fun date_shape :: "string \<Rightarrow> bool" where
  "date_shape [a, b, c, d, e, f, g, h, i, j] =
     (is_digit a \<and> is_digit b \<and> is_digit c \<and> is_digit d \<and> e = CHR ''-'' \<and>
      is_digit f \<and> is_digit g \<and> h = CHR ''-'' \<and> is_digit i \<and> is_digit j)"
| "date_shape _ = False"

text \<open>
  The pattern \<^verbatim>\<open>Due:\s*(\d{4}-\d{2}-\d{2})\<close>, anchored. The greedy \<^verbatim>\<open>\s*\<close> takes the
  whole run of whitespace; giving a character back never helps, since the date starts
  with a digit.
\<close>

definition match_due :: "string \<Rightarrow> (string \<times> string) option" where
  "match_due s =
     (if prefix ''Due:'' s then
        (let r = dropWhile is_space (drop 4 s)
         in if date_shape (take 10 r) then Some (take 10 r, drop 10 r) else None)
      else None)"

definition extract_due :: "string \<Rightarrow> string" where
  "extract_due todo =
     (case re_search match_due todo of
        Some (p, g, r) \<Rightarrow> g
      | None \<Rightarrow> ''9999-12-31'')"

text \<open>
  The pattern \<^verbatim>\<open>Assigned:\s*(\w+)\<close>, anchored. Whitespace is no word character, so
  the greedy \<^verbatim>\<open>\s*\<close> and \<^verbatim>\<open>\w+\<close> each take their whole run.
\<close>

definition match_assigned :: "string \<Rightarrow> (string \<times> string) option" where
  "match_assigned s =
     (if prefix ''Assigned:'' s then
        (let r = dropWhile is_space (drop 9 s)
         in if takeWhile is_word r \<noteq> [] then Some (takeWhile is_word r, dropWhile is_word r)
            else None)
      else None)"

definition extract_assigned :: "string \<Rightarrow> string" where
  "extract_assigned todo =
     (case re_search match_assigned todo of
        Some (p, g, r) \<Rightarrow> lower g
      | None \<Rightarrow> [])"

text \<open>
  \<^verbatim>\<open>sorted(xs, key=f)\<close> is a stable sort by the key, strings comparing by code point;
  with \<^verbatim>\<open>reverse=True\<close> the list is reversed, sorted and reversed again, so that equal
  keys keep their order.
\<close>

definition sorted_by :: "(string \<Rightarrow> string) \<Rightarrow> string list \<Rightarrow> string list" where
  "sorted_by f xs = sort_key f xs"

definition sorted_by_reverse :: "(string \<Rightarrow> string) \<Rightarrow> string list \<Rightarrow> string list" where
  "sorted_by_reverse f xs = rev (sort_key f (rev xs))"

text \<open>
  The chain of lines 115 to 130 in the command \<^verbatim>\<open>list\<close>. In the branch of
  \<^verbatim>\<open>descending_id\<close> the name \<^verbatim>\<open>list\<close> is the module's own function \<^verbatim>\<open>list\<close> (the
  \<^verbatim>\<open>def list\<close> of line 76 rebinds the global name, and \<^verbatim>\<open>app.command()\<close> returns
  the function as it is), not the builtin: \<^verbatim>\<open>list(reversed(todos))\<close> calls the command
  with the iterator as \<^verbatim>\<open>path\<close>, and its first statement
  \<^verbatim>\<open>find_python_files(path)\<close> raises \<^verbatim>\<open>AttributeError\<close> at \<^verbatim>\<open>root.rglob\<close>.
\<close>

definition sort_todos :: "string option \<Rightarrow> string list \<Rightarrow> py_exc + string list" where
  "sort_todos sortopt todos =
     (if sortopt = Some ''ascending_id'' then Inr todos
      else if sortopt = Some ''descending_id'' then Inl AttributeError
      else if sortopt = Some ''a-z'' then Inr (sorted_by lower todos)
      else if sortopt = Some ''z-a'' then Inr (sorted_by_reverse lower todos)
      else if sortopt = Some ''ascending_due_date'' then Inr (sorted_by extract_due todos)
      else if sortopt = Some ''descending_due_date'' then Inr (sorted_by_reverse extract_due todos)
      else if sortopt = Some ''a-z_assignedname'' then Inr (sorted_by extract_assigned todos)
      else if sortopt = Some ''z-a_assignedname'' then Inr (sorted_by_reverse extract_assigned todos)
      else Inr todos)"

definition sort_options :: "string list" where
  "sort_options = [''ascending_id'', ''descending_id'', ''a-z'', ''z-a'',
     ''ascending_due_date'', ''descending_due_date'', ''a-z_assignedname'', ''z-a_assignedname'']"

text \<open>
  The command \<^verbatim>\<open>list\<close> on one file (lines 97 to 135): the task lines it prints, in
  order; none for a file without block or with an empty one. The parameter \<^verbatim>\<open>sort\<close>
  is \<open>sortopt\<close> here.
\<close>

definition list_file :: "string option \<Rightarrow> string \<Rightarrow> py_exc + string list" where
  "list_file sortopt text =
     (if sortopt \<noteq> None \<and> sortopt \<noteq> Some [] \<and> the sortopt \<notin> set sort_options then Inl (Exit 1)
      else (case parse_todo_block text of
              None \<Rightarrow> Inr []
            | Some todos \<Rightarrow> if todos = [] then Inr [] else sort_todos sortopt todos))"


section \<open>Substring search: what it finds\<close>

text \<open>
  A pattern is unbordered when no proper prefix of it is also a suffix of it: two
  occurrences of it cannot overlap. Both markers are unbordered.
\<close>

lemma contains_Nil: "contains pat [] = (pat = [])"
  by (simp add: contains_def)

lemma contains_Cons: "contains pat (c # cs) = (prefix pat (c # cs) \<or> contains pat cs)"
  by (auto simp: contains_def)

lemma contains_iff: "contains pat s = (\<exists>a b. s = a @ pat @ b)"
proof (induction s)
  case Nil
  then show ?case by (auto simp: contains_Nil)
next
  case (Cons c cs)
  show ?case
  proof
    assume "contains pat (c # cs)"
    then consider "prefix pat (c # cs)" | "contains pat cs" by (auto simp: contains_Cons)
    then show "\<exists>a b. c # cs = a @ pat @ b"
    proof cases
      case 1
      then obtain b where "c # cs = pat @ b" by (auto elim: prefixE)
      then have "c # cs = [] @ pat @ b" by simp
      then show ?thesis by blast
    next
      case 2
      with Cons.IH obtain a b where "cs = a @ pat @ b" by auto
      then have "c # cs = (c # a) @ pat @ b" by simp
      then show ?thesis by blast
    qed
  next
    assume "\<exists>a b. c # cs = a @ pat @ b"
    then obtain a b where ab: "c # cs = a @ pat @ b" by auto
    show "contains pat (c # cs)"
    proof (cases a)
      case Nil
      with ab have "prefix pat (c # cs)" by (simp add: prefix_def)
      then show ?thesis by (simp add: contains_Cons)
    next
      case (Cons x a')
      with ab have "cs = a' @ pat @ b" by simp
      with Cons.IH have "contains pat cs" by auto
      then show ?thesis by (simp add: contains_Cons)
    qed
  qed
qed

lemma contains_append_left: "contains pat a \<Longrightarrow> contains pat (a @ b)"
  unfolding contains_iff by (metis append.assoc)

lemma contains_append_right: "contains pat b \<Longrightarrow> contains pat (a @ b)"
  unfolding contains_iff by (metis append.assoc)

lemma find_sub_first:
  "find_sub pat s = Some (a, b) \<Longrightarrow> pat \<noteq> [] \<Longrightarrow> \<not> contains pat a"
proof (induction s arbitrary: a)
  case Nil
  then show ?case by (auto split: if_splits)
next
  case (Cons c cs)
  show ?case
  proof (cases "prefix pat (c # cs)")
    case True
    with Cons.prems show ?thesis by (auto simp: contains_Nil)
  next
    case False
    with Cons.prems obtain a' where a': "find_sub pat cs = Some (a', b)" "a = c # a'"
      by auto
    from a'(1) have cs: "cs = a' @ pat @ b" by (rule find_sub_split)
    have "\<not> prefix pat (c # a')"
    proof
      assume "prefix pat (c # a')"
      then have "prefix pat ((c # a') @ pat @ b)" using prefix_prefix by blast
      with cs False show False by simp
    qed
    moreover from Cons.IH [OF a'(1) Cons.prems(2)] have "\<not> contains pat a'" .
    ultimately show ?thesis by (simp add: a'(2) contains_Cons)
  qed
qed

definition unbordered :: "string \<Rightarrow> bool" where
  "unbordered pat = list_all (\<lambda>k. drop k pat \<noteq> take (length pat - k) pat) [1..<length pat]"

lemma unbordered_START: "unbordered TODO_START" by code_simp
lemma unbordered_END: "unbordered TODO_END" by code_simp
lemma unbordered_Due: "unbordered ''Due:''" by code_simp
lemma unbordered_Assigned: "unbordered ''Assigned:''" by code_simp

lemma unbordered_prefix:
  assumes u: "unbordered pat" and p: "prefix pat (s @ pat @ r)" and s: "s \<noteq> []"
  shows "prefix pat s"
proof (rule ccontr)
  assume np: "\<not> prefix pat s"
  have len: "length s < length pat"
  proof (rule ccontr)
    assume "\<not> length s < length pat"
    then have "length pat \<le> length s" by simp
    with p have "prefix pat s" by (auto simp: prefix_def append_eq_append_conv2 dest: arg_cong[where f=length])
       
    with np show False by simp
  qed
  from p obtain z where z: "s @ pat @ r = pat @ z" by (auto simp: prefix_def)
  have "take (length pat) (s @ pat @ r) = pat" using z by simp
  then have "s @ take (length pat - length s) pat = pat" using len by simp
  then have "drop (length s) pat = take (length pat - length s) pat"
    by (metis append_eq_conv_conj)
  moreover from s have "Suc 0 \<le> length s" by (cases s) auto
  with u len have "drop (length s) pat \<noteq> take (length pat - length s) pat"
    by (simp add: unbordered_def list_all_iff)
  ultimately show False by simp
qed

lemma find_sub_unbordered:
  assumes u: "unbordered pat" and ne: "pat \<noteq> []"
  shows "\<not> contains pat a \<Longrightarrow> find_sub pat (a @ pat @ b) = Some (a, b)"
proof (induction a)
  case Nil
  from ne obtain x xs where "pat = x # xs" by (cases pat) auto
  then show ?case by simp
next
  case (Cons c a)
  have "\<not> prefix pat (c # a @ pat @ b)"
  proof
    assume "prefix pat (c # a @ pat @ b)"
    then have "prefix pat ((c # a) @ pat @ b)" by simp
    from unbordered_prefix [OF u this] have "prefix pat (c # a)" by simp
    with Cons.prems show False by (simp add: contains_Cons)
  qed
  moreover from Cons.prems have "\<not> contains pat a" by (simp add: contains_Cons)
  ultimately show ?case using Cons.IH by simp
qed

lemma find_sub_iff:
  assumes "unbordered pat" "pat \<noteq> []"
  shows "find_sub pat s = Some (a, b) \<longleftrightarrow> s = a @ pat @ b \<and> \<not> contains pat a"
  using assms find_sub_split find_sub_first find_sub_unbordered by metis


section \<open>Claims settled by evaluating the code\<close>

text \<open>
  C2. The claim: sorting a non-empty sequence of task lines with the key
  \<^verbatim>\<open>descending_id\<close> returns the lines in reversed file order. The code does not get
  there: in that branch it calls the command \<^verbatim>\<open>list\<close> itself, which raises
  \<^verbatim>\<open>AttributeError\<close>, for every sequence of lines, and so does the command on a file
  with the two tasks \<^verbatim>\<open>(1) a\<close> and \<^verbatim>\<open>(2) b\<close>.
\<close>

theorem descending_id_raises:
  "sort_todos (Some ''descending_id'') todos = Inl AttributeError \<and>
   list_file (Some ''descending_id'')
     (TODO_START @ ''\<newline>(1) a\<newline>(2) b\<newline>'' @ TODO_END) = Inl AttributeError"
proof
  show "sort_todos (Some ''descending_id'') todos = Inl AttributeError"
    by (simp add: sort_todos_def)
  show "list_file (Some ''descending_id'')
     (TODO_START @ ''\<newline>(1) a\<newline>(2) b\<newline>'' @ TODO_END) = Inl AttributeError"
    by code_simp
qed

text \<open>
  C5. The claim: a priority outside 1 to 4 gives the same line as no priority, the
  fields joined by single spaces. With priority 5 the code appends the empty token of
  \<^verbatim>\<open>format_priority\<close> to the parts, and the join puts two spaces between the index and
  the description; with no priority there is one.
\<close>

theorem priority_out_of_range_double_space:
  "build_task_line 1 ''x'' (Some 5) None None = Inr ''(1)  x'' \<and>
   build_task_line 1 ''x'' None None None = Inr ''(1) x''"
  by code_simp

text \<open>
  C6. The claim: a due string is accepted only in the exact zero-padded form
  \<^verbatim>\<open>YYYY-MM-DD\<close>. The code accepts \<^verbatim>\<open>2024-1-5\<close> and writes it into the line as it
  is; the sort key \<^verbatim>\<open>extract_due\<close> of the same program does not find that date in the
  line and gives the date of a line without due date.
\<close>

theorem unpadded_due_accepted:
  "build_task_line 1 ''x'' None (Some ''2024-1-5'') None = Inr ''(1) x Due: 2024-1-5'' \<and>
   extract_due ''(1) x Due: 2024-1-5'' = ''9999-12-31''"
  by code_simp


section \<open>Completing a task\<close>

lemma not_digit_paren: "\<not> is_digit CHR '')''"
  by (simp add: is_digit_def code_def)

lemma match_label_labelled:
  assumes "ds \<noteq> []" "list_all is_digit ds"
  shows "match_label (''('' @ ds @ '')'' @ rest) = Some rest"
proof -
  from assms(2) have all: "\<forall>x\<in>set ds. is_digit x" by (simp add: list_all_iff)
  have tw: "takeWhile is_digit (ds @ CHR '')'' # rest) = ds"
    using all not_digit_paren by (simp add: takeWhile_append2)
  have dw: "dropWhile is_digit (ds @ CHR '')'' # rest) = CHR '')'' # rest"
    using all not_digit_paren by (simp add: dropWhile_append2)
  show ?thesis
    using assms(1) tw dw by (simp add: match_label_def)
qed

lemma renumber_labelled:
  assumes "ds \<noteq> []" "list_all is_digit ds"
  shows "renumber i (''('' @ ds @ '')'' @ rest) = ''('' @ str_nat (i + 1) @ '')'' @ rest"
  using match_label_labelled [OF assms, of rest] by (simp add: renumber_def)

text \<open>
  C7. For every sequence of N task lines (N at least 1), each starting with a
  parenthesized number (a non-empty run of digits \<open>ds\<close> in parentheses, followed by any
  text \<open>rest\<close>), and every position \<open>tid\<close> from 0 to N - 1, \<^verbatim>\<open>complete\<close> returns the
  line at that position as removed and N - 1 lines; the line at position \<open>i\<close> of the
  result is the label \<open>(i + 1)\<close> followed by the unchanged text after the label of
  the \<open>i\<close>-th remaining line.
\<close>

theorem complete_renumbers:
  assumes "ps \<noteq> []"
    and "\<forall>p \<in> set ps. fst p \<noteq> [] \<and> list_all is_digit (fst p)"
    and "0 \<le> tid" and "tid < int (length ps)"
  shows "\<exists>updated.
    complete_todos (map (\<lambda>p. ''('' @ fst p @ '')'' @ snd p) ps) tid =
      Inr (''('' @ fst (ps ! nat tid) @ '')'' @ snd (ps ! nat tid), updated) \<and>
    length updated = length ps - 1 \<and>
    (\<forall>i < length updated.
       updated ! i = ''('' @ str_nat (i + 1) @ '')'' @
         snd ((take (nat tid) ps @ drop (Suc (nat tid)) ps) ! i))"
proof -
  define line where "line = (\<lambda>p :: string \<times> string. ''('' @ fst p @ '')'' @ snd p)"
  define n where "n = nat tid"
  define remaining where "remaining = take n ps @ drop (Suc n) ps"
  define updated where
    "updated = map (\<lambda>(i, todo). renumber i todo) (enumerate 0 (map line remaining))"
  from assms(3,4) have n: "n < length ps" by (simp add: n_def)
  have len_rem: "length remaining = length ps - 1"
    using n by (simp add: remaining_def)
  have split: "take n (map line ps) @ drop (Suc n) (map line ps) = map line remaining"
    by (simp add: remaining_def take_map drop_map)
  have res: "complete_todos (map line ps) tid = Inr (line (ps ! n), updated)"
    using assms(1,3,4) n split
    by (simp add: complete_todos_def updated_def n_def [symmetric] Let_def)
  have len: "length updated = length ps - 1"
    by (simp add: updated_def len_rem)
  have nth: "updated ! i = ''('' @ str_nat (i + 1) @ '')'' @ snd (remaining ! i)"
    if i: "i < length updated" for i
  proof -
    from i have ir: "i < length remaining" by (simp add: updated_def)
    then have "remaining ! i \<in> set remaining" by simp
    moreover have "set remaining \<subseteq> set ps"
      using set_take_subset [of n ps] set_drop_subset [of "Suc n" ps]
      by (auto simp: remaining_def)
    ultimately have lab: "fst (remaining ! i) \<noteq> []" "list_all is_digit (fst (remaining ! i))"
      using assms(2) by auto
    have "updated ! i = renumber i (line (remaining ! i))"
      using ir by (simp add: updated_def nth_enumerate_eq)
    also have "\<dots> = ''('' @ str_nat (i + 1) @ '')'' @ snd (remaining ! i)"
      unfolding line_def by (rule renumber_labelled [OF lab])
    finally show ?thesis .
  qed
  show ?thesis
    using res len nth
    unfolding line_def remaining_def n_def by blast
qed

theorem complete_renumbers_witness:
  "complete_todos [''(1) a 1'', ''(22) b'', ''(3)c (4)''] 1 =
     Inr (''(22) b'', [''(1) a 1'', ''(2)c (4)''])"
proof -
  let ?ps = "[(''1'', '' a 1''), (''22'', '' b''), (''3'', ''c (4)'')]"
  have h1: "?ps \<noteq> []" by simp
  have h2: "\<forall>p \<in> set ?ps. fst p \<noteq> [] \<and> list_all is_digit (fst p)"
    by (simp add: is_digit_def code_def)
  have h3: "(0::int) \<le> 1" by simp
  have h4: "(1::int) < int (length ?ps)" by simp
  from complete_renumbers [OF h1 h2 h3 h4] obtain updated where
    u: "complete_todos (map (\<lambda>p. ''('' @ fst p @ '')'' @ snd p) ?ps) 1 =
      Inr (''('' @ fst (?ps ! nat 1) @ '')'' @ snd (?ps ! nat 1), updated)"
    and l: "length updated = length ?ps - 1"
    and e: "\<forall>i < length updated.
       updated ! i = ''('' @ str_nat (i + 1) @ '')'' @
         snd ((take (nat 1) ?ps @ drop (Suc (nat 1)) ?ps) ! i)"
    by blast
  from l have l2: "length updated = 2" by simp
  have s1: "str_nat (Suc 0) = ''1''" by code_simp
  have s2: "str_nat (Suc (Suc 0)) = ''2''" by code_simp
  from e l2 have "updated ! 0 = ''(1) a 1''"
    using s1 by (auto dest: spec [of _ 0])
  moreover from e l2 have "updated ! 1 = ''(2)c (4)''"
    using s2 by (auto dest!: spec [of _ 1])
  ultimately have "updated = [''(1) a 1'', ''(2)c (4)'']"
    using l2 by (auto simp: list_eq_iff_nth_eq less_Suc_eq numeral_2_eq_2)
  with u show ?thesis by simp
qed


section \<open>Regex search: the first match\<close>

lemma contains_drop: "contains pat (drop k s) \<Longrightarrow> contains pat s"
  by (metis append_take_drop_id contains_append_right)

lemma re_search_None_iff:
  "re_search m s = None \<longleftrightarrow> (\<forall>k \<le> length s. m (drop k s) = None)"
proof (induction s)
  case Nil
  then show ?case by auto
next
  case (Cons c cs)
  have "(\<forall>k \<le> length (c # cs). m (drop k (c # cs)) = None) \<longleftrightarrow>
        m (c # cs) = None \<and> (\<forall>k \<le> length cs. m (drop k cs) = None)"
  proof
    assume a: "\<forall>k \<le> length (c # cs). m (drop k (c # cs)) = None"
    from a [rule_format, of 0] have "m (c # cs) = None" by simp
    moreover have "m (drop k cs) = None" if "k \<le> length cs" for k
      using a [rule_format, of "Suc k"] that by simp
    ultimately show "m (c # cs) = None \<and> (\<forall>k \<le> length cs. m (drop k cs) = None)" by blast
  next
    assume a: "m (c # cs) = None \<and> (\<forall>k \<le> length cs. m (drop k cs) = None)"
    show "\<forall>k \<le> length (c # cs). m (drop k (c # cs)) = None"
    proof (intro allI impI)
      fix k assume "k \<le> length (c # cs)"
      then show "m (drop k (c # cs)) = None" using a by (cases k) auto
    qed
  qed
  with Cons.IH show ?case by (auto split: option.splits)
qed

lemma re_search_before:
  "re_search m s = Some (p, g, r) \<Longrightarrow> k < length p \<Longrightarrow> m (drop k s) = None"
proof (induction s arbitrary: p k)
  case Nil
  then show ?case by auto
next
  case (Cons c cs)
  show ?case
  proof (cases "m (c # cs)")
    case None
    with Cons.prems obtain p' where p': "re_search m cs = Some (p', g, r)" "p = c # p'"
      by auto
    show ?thesis
    proof (cases k)
      case 0
      with None show ?thesis by simp
    next
      case (Suc k')
      with Cons.prems(2) p'(2) have "k' < length p'" by simp
      from Cons.IH [OF p'(1) this] Suc show ?thesis by simp
    qed
  next
    case (Some a)
    with Cons.prems show ?thesis by (cases a) auto
  qed
qed

lemma re_search_at:
  "(\<forall>k < length p. m (drop k (p @ t)) = None) \<Longrightarrow> m t = Some (g, r) \<Longrightarrow>
   re_search m (p @ t) = Some (p, g, r)"
proof (induction p)
  case Nil
  then show ?case by (cases t) auto
next
  case (Cons c p)
  from Cons.prems(1) [rule_format, of 0] have "m (c # p @ t) = None" by simp
  moreover have "\<forall>k < length p. m (drop k (p @ t)) = None"
  proof (intro allI impI)
    fix k assume "k < length p"
    then show "m (drop k (p @ t)) = None"
      using Cons.prems(1) [rule_format, of "Suc k"] by simp
  qed
  ultimately show ?case using Cons.IH Cons.prems(2) by simp
qed

text \<open>A pattern that starts with an unbordered literal is not found before the
  first occurrence of the literal.\<close>

lemma re_search_literal:
  assumes u: "unbordered lit"
    and m: "\<And>s. m s \<noteq> None \<Longrightarrow> prefix lit s"
    and pre: "\<not> contains lit pre"
    and here: "m (lit @ rest) = Some (g, r)"
  shows "re_search m (pre @ lit @ rest) = Some (pre, g, r)"
proof -
  have "\<forall>k < length pre. m (drop k (pre @ lit @ rest)) = None"
  proof (intro allI impI, rule ccontr)
    fix k assume k: "k < length pre" and nn: "m (drop k (pre @ lit @ rest)) \<noteq> None"
    from nn have "prefix lit (drop k (pre @ lit @ rest))" by (rule m)
    with k have "prefix lit (drop k pre @ lit @ rest)" by simp
    moreover from k have "drop k pre \<noteq> []" by simp
    ultimately have "prefix lit (drop k pre)" by (rule unbordered_prefix [OF u])
    then have "contains lit (drop k pre)"
      by (auto simp: contains_iff prefix_def intro: exI [of _ "[]"])
    then have "contains lit pre" by (rule contains_drop)
    with pre show False by simp
  qed
  then show ?thesis
    using here by (rule re_search_at [where t = "lit @ rest"])
qed


section \<open>Sorting by due date\<close>

text \<open>A line has a due date when the pattern of \<^verbatim>\<open>extract_due\<close> is found in it.\<close>

definition has_due :: "string \<Rightarrow> bool" where
  "has_due todo = (re_search match_due todo \<noteq> None)"

lemma not_space_digit: "is_digit c \<Longrightarrow> \<not> is_space c"
  by (auto simp: is_digit_def is_space_def Let_def)

lemma date_shape_length: "date_shape d \<Longrightarrow> length d = 10"
  by (induction d rule: date_shape.induct) auto

lemma date_shape_hd: "date_shape d \<Longrightarrow> is_digit (hd d)"
  by (induction d rule: date_shape.induct) auto

lemma match_due_prefix: "match_due s \<noteq> None \<Longrightarrow> prefix ''Due:'' s"
  by (auto simp: match_due_def split: if_splits)

lemma match_due_here:
  assumes "list_all is_space ws" "date_shape d"
  shows "match_due (''Due:'' @ ws @ d @ rest) = Some (d, rest)"
proof -
  from assms(2) have "d \<noteq> []" "\<not> is_space (hd d)" "length d = 10"
    by (auto simp: date_shape_length date_shape_hd not_space_digit)
  then have "dropWhile is_space (ws @ d @ rest) = d @ rest"
    using assms(1) by (cases d) (auto simp: dropWhile_append2 list_all_iff)
  then show ?thesis
    using assms(2) \<open>length d = 10\<close> by (simp add: match_due_def)
qed

text \<open>What \<open>has_due\<close> means, in terms of the text of the line.\<close>

lemma has_due_iff:
  "has_due todo \<longleftrightarrow>
   (\<exists>pre ws d rest. todo = pre @ ''Due:'' @ ws @ d @ rest \<and> list_all is_space ws \<and> date_shape d)"
proof
  assume "has_due todo"
  then obtain p g r where "re_search match_due todo = Some (p, g, r)"
    by (auto simp: has_due_def)
  then obtain t where t: "todo = p @ t" "match_due t = Some (g, r)"
    by (auto dest: re_search_split)
  from t(2) obtain u where u: "t = ''Due:'' @ u" "date_shape (take 10 (dropWhile is_space u))"
    by (auto simp: match_due_def Let_def prefix_def split: if_splits)
  have "u = takeWhile is_space u @ take 10 (dropWhile is_space u) @ drop 10 (dropWhile is_space u)"
    by simp
  with t(1) u(1) have "todo = p @ ''Due:'' @ takeWhile is_space u @
      take 10 (dropWhile is_space u) @ drop 10 (dropWhile is_space u)"
    by simp
  moreover have "list_all is_space (takeWhile is_space u)"
    by (auto simp: list_all_iff dest: set_takeWhileD)
  ultimately show "\<exists>pre ws d rest. todo = pre @ ''Due:'' @ ws @ d @ rest \<and>
      list_all is_space ws \<and> date_shape d"
    using u(2) by blast
next
  assume "\<exists>pre ws d rest. todo = pre @ ''Due:'' @ ws @ d @ rest \<and>
      list_all is_space ws \<and> date_shape d"
  then obtain pre ws d rest where
    d: "todo = pre @ ''Due:'' @ ws @ d @ rest" "list_all is_space ws" "date_shape d"
    by blast
  have "match_due (drop (length pre) todo) = Some (d, rest)"
    using match_due_here [OF d(2,3)] d(1) by simp
  moreover have "length pre \<le> length todo" using d(1) by simp
  ultimately have "re_search match_due todo \<noteq> None"
    using re_search_None_iff [of match_due todo] by auto
  then show "has_due todo" by (simp add: has_due_def)
qed

lemma extract_due_missing: "\<not> has_due todo \<Longrightarrow> extract_due todo = ''9999-12-31''"
  by (cases "re_search match_due todo") (simp_all add: has_due_def extract_due_def)

text \<open>
  C4, as the code has it. A line without due date has the key \<^verbatim>\<open>9999-12-31\<close>. Both
  sorts return the same lines. With \<^verbatim>\<open>ascending_due_date\<close> a line without due date
  stands after every line whose key is below \<^verbatim>\<open>9999-12-31\<close>; with
  \<^verbatim>\<open>descending_due_date\<close> it stands before every such line.
\<close>

theorem missing_due_last_ascending_first_descending:
  "(\<not> has_due todo \<longrightarrow> extract_due todo = ''9999-12-31'') \<and>
   (\<exists>ys. sort_todos (Some ''ascending_due_date'') todos = Inr ys \<and>
      set ys = set todos \<and> length ys = length todos \<and>
      (\<forall>i j. i < length ys \<and> j < length ys \<and> \<not> has_due (ys ! i) \<and>
         extract_due (ys ! j) < ''9999-12-31'' \<longrightarrow> j < i)) \<and>
   (\<exists>ys. sort_todos (Some ''descending_due_date'') todos = Inr ys \<and>
      set ys = set todos \<and> length ys = length todos \<and>
      (\<forall>i j. i < length ys \<and> j < length ys \<and> \<not> has_due (ys ! i) \<and>
         extract_due (ys ! j) < ''9999-12-31'' \<longrightarrow> i < j))"
proof (intro conjI)
  show "\<not> has_due todo \<longrightarrow> extract_due todo = ''9999-12-31''"
    by (simp add: extract_due_missing)
next
  define ys where "ys = sort_key extract_due todos"
  have res: "sort_todos (Some ''ascending_due_date'') todos = Inr ys"
    by (simp add: sort_todos_def sorted_by_def ys_def)
  have srt: "sorted (map extract_due ys)" by (simp add: ys_def)
  have "j < i" if a: "i < length ys" "j < length ys" "\<not> has_due (ys ! i)"
      "extract_due (ys ! j) < ''9999-12-31''" for i j
  proof (rule ccontr)
    assume "\<not> j < i"
    then have "i \<le> j" by simp
    from sorted_nth_mono [OF srt this] a(2)
    have "map extract_due ys ! i \<le> map extract_due ys ! j" by simp
    with a(1,2) have "extract_due (ys ! i) \<le> extract_due (ys ! j)" by simp
    with a(3,4) show False by (simp add: extract_due_missing)
  qed
  with res show "\<exists>ys. sort_todos (Some ''ascending_due_date'') todos = Inr ys \<and>
      set ys = set todos \<and> length ys = length todos \<and>
      (\<forall>i j. i < length ys \<and> j < length ys \<and> \<not> has_due (ys ! i) \<and>
         extract_due (ys ! j) < ''9999-12-31'' \<longrightarrow> j < i)"
    by (auto simp: ys_def)
next
  define ys where "ys = rev (sort_key extract_due (rev todos))"
  have res: "sort_todos (Some ''descending_due_date'') todos = Inr ys"
    by (simp add: sort_todos_def sorted_by_reverse_def ys_def)
  have srt: "sorted (rev (map extract_due ys))" by (simp add: ys_def rev_map [symmetric])
  have "i < j" if a: "i < length ys" "j < length ys" "\<not> has_due (ys ! i)"
      "extract_due (ys ! j) < ''9999-12-31''" for i j
  proof (rule ccontr)
    assume "\<not> i < j"
    then have "j \<le> i" by simp
    from sorted_rev_nth_mono [OF srt this] a(1)
    have "map extract_due ys ! i \<le> map extract_due ys ! j" by simp
    with a(1,2) have "extract_due (ys ! i) \<le> extract_due (ys ! j)" by simp
    with a(3,4) show False by (simp add: extract_due_missing)
  qed
  with res show "\<exists>ys. sort_todos (Some ''descending_due_date'') todos = Inr ys \<and>
      set ys = set todos \<and> length ys = length todos \<and>
      (\<forall>i j. i < length ys \<and> j < length ys \<and> \<not> has_due (ys ! i) \<and>
         extract_due (ys ! j) < ''9999-12-31'' \<longrightarrow> i < j)"
    by (auto simp: ys_def)
qed

text \<open>The claim as written fails: with \<^verbatim>\<open>descending_due_date\<close> the line without due
  date comes first, not last.\<close>

theorem missing_due_descending_counterexample:
  "sort_todos (Some ''descending_due_date'') [''(1) a Due: 2024-01-01'', ''(2) b''] =
     Inr [''(2) b'', ''(1) a Due: 2024-01-01'']"
  by code_simp

theorem missing_due_order_witness:
  "\<not> has_due ''(2) b'' \<and> extract_due ''(2) b'' = ''9999-12-31'' \<and>
   extract_due ''(1) a Due: 2024-05-01'' < ''9999-12-31'' \<and>
   sort_todos (Some ''ascending_due_date'')
     [''(1) a Due: 2024-05-01'', ''(2) b'', ''(3) c Due: 2024-01-01''] =
     Inr [''(3) c Due: 2024-01-01'', ''(1) a Due: 2024-05-01'', ''(2) b''] \<and>
   sort_todos (Some ''descending_due_date'')
     [''(1) a Due: 2024-05-01'', ''(2) b'', ''(3) c Due: 2024-01-01''] =
     Inr [''(2) b'', ''(1) a Due: 2024-05-01'', ''(3) c Due: 2024-01-01'']"
proof -
  have h: "\<not> has_due ''(2) b''" by code_simp
  from missing_due_last_ascending_first_descending [of "''(2) b''" "[]"] h
  have "extract_due ''(2) b'' = ''9999-12-31''" by blast
  moreover have "extract_due ''(1) a Due: 2024-05-01'' < ''9999-12-31''" by code_simp
  moreover have "sort_todos (Some ''ascending_due_date'')
     [''(1) a Due: 2024-05-01'', ''(2) b'', ''(3) c Due: 2024-01-01''] =
     Inr [''(3) c Due: 2024-01-01'', ''(1) a Due: 2024-05-01'', ''(2) b'']" by code_simp
  moreover have "sort_todos (Some ''descending_due_date'')
     [''(1) a Due: 2024-05-01'', ''(2) b'', ''(3) c Due: 2024-01-01''] =
     Inr [''(2) b'', ''(1) a Due: 2024-05-01'', ''(3) c Due: 2024-01-01'']" by code_simp
  ultimately show ?thesis using h by blast
qed


section \<open>Sort keys found anywhere in the line\<close>

lemma not_space_word: "is_word c \<Longrightarrow> \<not> is_space c"
  by (auto simp: is_word_def is_space_def Let_def)

lemma code_char_of: "n < 256 \<Longrightarrow> code (char_of n) = n"
  by (simp add: code_def)

lemma lower_char_not_space: "is_word c \<Longrightarrow> \<not> is_space (lower_char c)"
proof -
  assume w: "is_word c"
  have lt: "code c < 256" by (simp add: code_def)
  show ?thesis
  proof (cases "(65 \<le> code c \<and> code c \<le> 90) \<or> (192 \<le> code c \<and> code c \<le> 222 \<and> code c \<noteq> 215)")
    case True
    then have "lower_char c = char_of (code c + 32)"
      unfolding lower_char_def Let_def by (rule if_P)
    moreover from True have "code (char_of (code c + 32)) = code c + 32"
      by (intro code_char_of) auto
    ultimately show ?thesis using True by (auto simp: is_space_def Let_def)
  next
    case False
    then have "lower_char c = c"
      unfolding lower_char_def Let_def by (rule if_not_P)
    with w show ?thesis by (simp add: not_space_word)
  qed
qed

lemma match_assigned_prefix: "match_assigned s \<noteq> None \<Longrightarrow> prefix ''Assigned:'' s"
  by (auto simp: match_assigned_def split: if_splits)

lemma match_assigned_here:
  assumes "list_all is_space ws" "w \<noteq> []" "list_all is_word w" "rest = [] \<or> \<not> is_word (hd rest)"
  shows "match_assigned (''Assigned:'' @ ws @ w @ rest) = Some (w, rest)"
proof -
  from assms(2,3) have "\<not> is_space (hd w)"
    by (cases w) (auto simp: not_space_word)
  then have dw: "dropWhile is_space (ws @ w @ rest) = w @ rest"
    using assms(1,2) by (cases w) (auto simp: dropWhile_append2 list_all_iff)
  from assms(3) have allw: "\<forall>x\<in>set w. is_word x" by (simp add: list_all_iff)
  have tw: "takeWhile is_word (w @ rest) = w"
    using allw assms(4) by (cases rest) (auto simp: takeWhile_append2)
  have dr: "dropWhile is_word (w @ rest) = rest"
    using allw assms(4) by (cases rest) (auto simp: dropWhile_append2)
  show ?thesis
    using dw tw dr assms(2) by (simp add: match_assigned_def)
qed

lemma extract_assigned_word: "c \<in> set (extract_assigned todo) \<Longrightarrow> \<not> is_space c"
proof (cases "re_search match_assigned todo")
  case None
  assume "c \<in> set (extract_assigned todo)"
  with None show ?thesis by (simp add: extract_assigned_def)
next
  case (Some a)
  assume c: "c \<in> set (extract_assigned todo)"
  obtain p g r where a: "a = (p, g, r)" by (cases a) auto
  with Some obtain t where "match_assigned t = Some (g, r)"
    by (auto dest: re_search_split)
  then have "\<forall>x\<in>set g. is_word x"
    by (auto simp: match_assigned_def Let_def split: if_splits dest: set_takeWhileD)
  moreover from c Some a have "c \<in> lower_char ` set g"
    by (simp add: extract_assigned_def lower_def)
  ultimately show ?thesis by (auto simp: lower_char_not_space)
qed

text \<open>
  C10. The sort keys are read from the first match of the pattern anywhere in the line.
  In a line whose first \<^verbatim>\<open>Due:\<close> is followed by optional whitespace and a date-shaped
  token, that token is the due key, whatever stands before and after it (so also when it
  stands in the description and the real due date follows). In a line whose first
  \<^verbatim>\<open>Assigned:\<close> is followed by optional whitespace and a word (a non-empty run of word
  characters that the next character, if any, ends), the assignee key is that word
  alone, lower-cased, whatever follows; and no assignee key ever contains whitespace.
\<close>

theorem sort_keys_first_match:
  "(\<not> contains ''Due:'' pre \<and> list_all is_space ws \<and> date_shape d \<longrightarrow>
      extract_due (pre @ ''Due:'' @ ws @ d @ rest) = d) \<and>
   (\<not> contains ''Assigned:'' pre \<and> list_all is_space ws \<and> w \<noteq> [] \<and> list_all is_word w \<and>
      (rest = [] \<or> \<not> is_word (hd rest)) \<longrightarrow>
      extract_assigned (pre @ ''Assigned:'' @ ws @ w @ rest) = lower w) \<and>
   (\<forall>c \<in> set (extract_assigned todo). \<not> is_space c)"
proof (intro conjI impI ballI)
  assume a: "\<not> contains ''Due:'' pre \<and> list_all is_space ws \<and> date_shape d"
  then have "match_due (''Due:'' @ ws @ d @ rest) = Some (d, rest)"
    by (intro match_due_here) auto
  with a have "re_search match_due (pre @ ''Due:'' @ ws @ d @ rest) = Some (pre, d, rest)"
    by (intro re_search_literal unbordered_Due match_due_prefix) auto
  then show "extract_due (pre @ ''Due:'' @ ws @ d @ rest) = d"
    by (simp add: extract_due_def)
next
  assume a: "\<not> contains ''Assigned:'' pre \<and> list_all is_space ws \<and> w \<noteq> [] \<and>
    list_all is_word w \<and> (rest = [] \<or> \<not> is_word (hd rest))"
  then have "match_assigned (''Assigned:'' @ ws @ w @ rest) = Some (w, rest)"
    by (intro match_assigned_here) auto
  with a have "re_search match_assigned (pre @ ''Assigned:'' @ ws @ w @ rest) = Some (pre, w, rest)"
    by (intro re_search_literal unbordered_Assigned match_assigned_prefix) auto
  then show "extract_assigned (pre @ ''Assigned:'' @ ws @ w @ rest) = lower w"
    by (simp add: extract_assigned_def)
next
  fix c assume "c \<in> set (extract_assigned todo)"
  then show "\<not> is_space c" by (rule extract_assigned_word)
qed

theorem sort_keys_first_match_witness:
  "build_task_line 1 ''pay Due: 2020-01-01 bill'' None (Some ''2024-05-05'') None =
     Inr ''(1) pay Due: 2020-01-01 bill Due: 2024-05-05'' \<and>
   extract_due ''(1) pay Due: 2020-01-01 bill Due: 2024-05-05'' = ''2020-01-01'' \<and>
   build_task_line 2 ''call'' None None (Some ''Mary Jane'') =
     Inr ''(2) call Assigned: Mary Jane'' \<and>
   extract_assigned ''(2) call Assigned: Mary Jane'' = ''mary''"
proof -
  have d: "\<not> contains ''Due:'' ''(1) pay '' \<and> list_all is_space '' '' \<and> date_shape ''2020-01-01''"
    by code_simp
  have a: "\<not> contains ''Assigned:'' ''(2) call '' \<and> list_all is_space '' '' \<and> ''Mary'' \<noteq> [] \<and>
      list_all is_word ''Mary'' \<and> ('' Jane'' = [] \<or> \<not> is_word (hd '' Jane''))"
    by code_simp
  have l: "lower ''Mary'' = ''mary''" by code_simp
  from sort_keys_first_match [of "''(1) pay ''" "'' ''" "''2020-01-01''" "'' bill Due: 2024-05-05''"] d
  have "extract_due (''(1) pay '' @ ''Due:'' @ '' '' @ ''2020-01-01'' @ '' bill Due: 2024-05-05'') = ''2020-01-01''"
    by blast
  moreover
  from sort_keys_first_match [of "''(2) call ''" "'' ''" "''2020-01-01''" "'' Jane''" "''Mary''"] a
  have "extract_assigned (''(2) call '' @ ''Assigned:'' @ '' '' @ ''Mary'' @ '' Jane'') = lower ''Mary''"
    by blast
  moreover have "build_task_line 1 ''pay Due: 2020-01-01 bill'' None (Some ''2024-05-05'') None =
     Inr ''(1) pay Due: 2020-01-01 bill Due: 2024-05-05''" by code_simp
  moreover have "build_task_line 2 ''call'' None None (Some ''Mary Jane'') =
     Inr ''(2) call Assigned: Mary Jane''" by code_simp
  ultimately show ?thesis using l by simp
qed


section \<open>add with a malformed due date\<close>

text \<open>
  C3, as the code has it. For every existing file and every due string that is not
  empty and that \<^verbatim>\<open>strptime\<close> rejects, \<^verbatim>\<open>add\<close> raises \<^verbatim>\<open>BadParameter\<close> and
  leaves the file as \<^verbatim>\<open>ensure_todo_block\<close> left it: unchanged when the text has both
  markers, and otherwise with an empty block appended, since the block is initialised
  before the due date is looked at.
\<close>

theorem add_malformed_due:
  assumes "due \<noteq> []" and "strptime_ymd due = None"
  shows "add (Some text) task priority (Some due) assigned =
    (Inl BadParameter,
     Some (if contains TODO_START text \<and> contains TODO_END text then text
           else text @ ''\<newline>'' @ TODO_START @ ''\<newline>'' @ TODO_END @ ''\<newline>''))"
proof -
  have b: "build_task_line i task priority (Some due) assigned = Inl BadParameter" for i
    using assms by (simp add: build_task_line_def Let_def)
  show ?thesis
    by (simp add: add_def ensure_todo_block_def b Let_def)
qed

theorem add_malformed_due_witness:
  "strptime_ymd ''2024-02-30'' = None \<and>
   add (Some (''x = 1\<newline>'' @ TODO_START @ ''\<newline>(1) a\<newline>'' @ TODO_END)) ''t'' None
       (Some ''2024-02-30'') None =
     (Inl BadParameter, Some (''x = 1\<newline>'' @ TODO_START @ ''\<newline>(1) a\<newline>'' @ TODO_END))"
proof -
  have h1: "''2024-02-30'' \<noteq> []" by simp
  have h2: "strptime_ymd ''2024-02-30'' = None" by code_simp
  have c: "contains TODO_START (''x = 1\<newline>'' @ TODO_START @ ''\<newline>(1) a\<newline>'' @ TODO_END) \<and>
           contains TODO_END (''x = 1\<newline>'' @ TODO_START @ ''\<newline>(1) a\<newline>'' @ TODO_END)"
    by code_simp
  from add_malformed_due [OF h1 h2,
      of "''x = 1\<newline>'' @ TODO_START @ ''\<newline>(1) a\<newline>'' @ TODO_END" "''t''" None None] c h2
  show ?thesis by simp
qed

text \<open>The claim as written fails for a file that has no block yet: the file is not
  left unchanged.\<close>

theorem add_malformed_due_counterexample:
  "add (Some ''x'') ''t'' None (Some ''2024-02-30'') None =
     (Inl BadParameter, Some (''x\<newline>'' @ TODO_START @ ''\<newline>'' @ TODO_END @ ''\<newline>'')) \<and>
   ''x\<newline>'' @ TODO_START @ ''\<newline>'' @ TODO_END @ ''\<newline>'' \<noteq> ''x''"
  by code_simp


section \<open>Finding the block\<close>

lemma TODO_START_nonempty: "TODO_START \<noteq> []"
  by (simp add: TODO_START_def)

lemma TODO_END_nonempty: "TODO_END \<noteq> []"
  by (simp add: TODO_END_def)

lemma match_block_prefix: "match_block s \<noteq> None \<Longrightarrow> prefix TODO_START s"
  by (auto simp: match_block_def split: if_splits)

lemma match_block_here:
  "\<not> contains TODO_END inner \<Longrightarrow>
   match_block (TODO_START @ inner @ TODO_END @ post) = Some (inner, post)"
  by (simp add: match_block_def find_sub_unbordered [OF unbordered_END TODO_END_nonempty])

lemma match_block_some:
  "contains TODO_END rest \<Longrightarrow> match_block (TODO_START @ rest) \<noteq> None"
  by (simp add: match_block_def contains_def)

lemma search_block_found:
  assumes "\<not> contains TODO_START pre" and "\<not> contains TODO_END inner"
  shows "search_block (pre @ TODO_START @ inner @ TODO_END @ post) = Some (pre, inner, post)"
  unfolding search_block_def
  using assms
  by (intro re_search_literal unbordered_START match_block_prefix match_block_here)

lemma search_block_first:
  assumes "search_block text = Some (pre, inner, post)"
  shows "text = pre @ TODO_START @ inner @ TODO_END @ post \<and>
         \<not> contains TODO_START pre \<and> \<not> contains TODO_END inner"
proof (intro conjI)
  from assms show tx: "text = pre @ TODO_START @ inner @ TODO_END @ post"
    by (rule search_block_split)
  from assms obtain t where t: "text = pre @ t" "match_block t = Some (inner, post)"
    by (auto simp: search_block_def dest: re_search_split)
  then have "find_sub TODO_END (drop (length TODO_START) t) = Some (inner, post)"
    by (auto simp: match_block_def split: if_splits)
  then show "\<not> contains TODO_END inner"
    by (rule find_sub_first) (rule TODO_END_nonempty)
  show "\<not> contains TODO_START pre"
  proof
    assume "contains TODO_START pre"
    then obtain a b where ab: "pre = a @ TODO_START @ b" by (auto simp: contains_iff)
    have "length a < length pre" using ab TODO_START_nonempty by simp
    with assms have "match_block (drop (length a) text) = None"
      unfolding search_block_def by (rule re_search_before)
    moreover have "drop (length a) text = TODO_START @ (b @ TODO_START @ inner @ TODO_END @ post)"
      using tx ab by simp
    moreover have "contains TODO_END (b @ TODO_START @ inner @ TODO_END @ post)"
      unfolding contains_iff by (metis append.assoc)
    ultimately show False using match_block_some by metis
  qed
qed

lemma search_block_iff:
  "search_block text = Some (pre, inner, post) \<longleftrightarrow>
   text = pre @ TODO_START @ inner @ TODO_END @ post \<and>
   \<not> contains TODO_START pre \<and> \<not> contains TODO_END inner"
  using search_block_first search_block_found by blast

lemma search_block_None_iff:
  "search_block text = None \<longleftrightarrow>
   \<not> (\<exists>pre inner post. text = pre @ TODO_START @ inner @ TODO_END @ post)"
proof
  assume n: "search_block text = None"
  show "\<not> (\<exists>pre inner post. text = pre @ TODO_START @ inner @ TODO_END @ post)"
  proof
    assume "\<exists>pre inner post. text = pre @ TODO_START @ inner @ TODO_END @ post"
    then obtain pre inner post where tx: "text = pre @ TODO_START @ inner @ TODO_END @ post"
      by blast
    then have "length pre \<le> length text" by simp
    with n have "match_block (drop (length pre) text) = None"
      unfolding search_block_def re_search_None_iff by blast
    moreover have "drop (length pre) text = TODO_START @ (inner @ TODO_END @ post)"
      using tx by simp
    moreover have "contains TODO_END (inner @ TODO_END @ post)"
      unfolding contains_iff by blast
    ultimately show False using match_block_some by metis
  qed
next
  assume "\<not> (\<exists>pre inner post. text = pre @ TODO_START @ inner @ TODO_END @ post)"
  then show "search_block text = None"
    by (cases "search_block text") (auto dest: search_block_split)
qed


section \<open>Trimming and splitting into lines\<close>

lemma linebreak_is_space: "is_linebreak c \<Longrightarrow> is_space c"
  by (auto simp: is_linebreak_def is_space_def Let_def)

lemma strip_Nil [simp]: "strip [] = []"
  by (simp add: strip_def)

lemma strip_blank: "list_all is_space s \<Longrightarrow> strip s = []"
proof -
  assume "list_all is_space s"
  then have d: "dropWhile is_space s = []" by (simp add: list_all_iff)
  show ?thesis unfolding strip_def d by simp
qed

lemma strip_ends:
  assumes "strip s \<noteq> []"
  shows "\<not> is_space (hd (strip s)) \<and> \<not> is_space (last (strip s))"
proof -
  define t where "t = dropWhile is_space s"
  define u where "u = dropWhile is_space (rev t)"
  have s: "strip s = rev u" by (simp add: strip_def t_def u_def)
  with assms have u: "u \<noteq> []" by simp
  then have hu: "\<not> is_space (hd u)" unfolding u_def by (rule hd_dropWhile)
  from u have rt: "rev t \<noteq> []" by (auto simp: u_def)
  then have t: "t \<noteq> []" by simp
  then have ht: "\<not> is_space (hd t)" unfolding t_def by (rule hd_dropWhile)
  have "rev t = takeWhile is_space (rev t) @ u" by (simp add: u_def)
  with u have "last u = last (rev t)" by (metis last_appendR)
  also have "\<dots> = hd t" using t by (simp add: last_rev)
  finally have "last u = hd t" .
  with ht hu u s show ?thesis by (simp add: hd_rev last_rev)
qed

lemma strip_id:
  assumes "s \<noteq> []" "\<not> is_space (hd s)" "\<not> is_space (last s)"
  shows "strip s = s"
proof -
  from assms(1,2) have "dropWhile is_space s = s" by (cases s) auto
  moreover from assms(1,3) have "dropWhile is_space (rev s) = rev s"
    by (cases "rev s") (auto simp: last_rev [symmetric] hd_rev)
  ultimately show ?thesis by (simp add: strip_def)
qed

lemma strip_pad:
  assumes "list_all is_space a" "list_all is_space b"
  shows "strip (a @ s @ b) = strip s"
proof -
  from assms have a: "\<forall>x\<in>set a. is_space x" and b: "\<forall>x\<in>set (rev b). is_space x"
    by (auto simp: list_all_iff)
  have 1: "dropWhile is_space (a @ s @ b) = dropWhile is_space (s @ b)"
    using a by (simp add: dropWhile_append2)
  show ?thesis
  proof (cases "dropWhile is_space s = []")
    case True
    then have all: "\<forall>x\<in>set s. is_space x" by (simp add: dropWhile_eq_Nil_conv)
    then have "dropWhile is_space (s @ b) = dropWhile is_space b"
      by (simp add: dropWhile_append2)
    moreover have "dropWhile is_space b = []" using b by (simp add: dropWhile_eq_Nil_conv)
    ultimately have e: "dropWhile is_space (a @ s @ b) = []" using 1 by simp
    show ?thesis unfolding strip_def e True by simp
  next
    case False
    then have "dropWhile is_space (s @ b) = dropWhile is_space s @ b"
      by (simp add: dropWhile_append1 dropWhile_eq_Nil_conv)
         (metis dropWhile_append1 dropWhile_eq_Nil_conv)
    then have r: "rev (dropWhile is_space (a @ s @ b)) = rev b @ rev (dropWhile is_space s)"
      using 1 by simp
    have "dropWhile is_space (rev b @ rev (dropWhile is_space s)) =
          dropWhile is_space (rev (dropWhile is_space s))"
      using b by (intro dropWhile_append2) auto
    then show ?thesis unfolding strip_def r by simp
  qed
qed

lemma splitlines_Nil_iff: "splitlines s = [] \<longleftrightarrow> s = []"
  by (cases s) (auto split: list.splits)

lemma splitlines_no_break: "l \<in> set (splitlines s) \<Longrightarrow> \<not> list_ex is_linebreak l"
proof (induction s arbitrary: l rule: splitlines.induct)
  case 1
  then show ?case by simp
next
  case (2 c cs)
  show ?case
  proof (cases "is_linebreak c")
    case True
    with "2.prems" "2.IH"(1) show ?thesis by auto
  next
    case False
    show ?thesis
    proof (cases "splitlines cs")
      case Nil
      with False "2.prems" show ?thesis by (auto simp: list_ex_iff)
    next
      case (Cons a ls)
      with False "2.prems" have "l = c # a \<or> l \<in> set ls" by auto
      moreover from "2.IH"(2) [OF False, of a] Cons have "\<not> list_ex is_linebreak a" by simp
      moreover have "\<not> list_ex is_linebreak l" if "l \<in> set ls"
        using "2.IH"(2) [OF False, of l] Cons that by simp
      ultimately show ?thesis using False by (auto simp: list_ex_iff)
    qed
  qed
qed

lemma splitlines_hd:
  assumes "s \<noteq> []" "\<not> is_linebreak (hd s)"
  shows "hd (splitlines s) \<noteq> [] \<and> hd (hd (splitlines s)) = hd s"
  using assms by (cases s) (auto split: list.splits)

lemma after_break_last:
  assumes "cs \<noteq> []" "\<not> is_linebreak (last cs)"
  shows "after_break c cs \<noteq> [] \<and> last (after_break c cs) = last cs"
proof (cases cs)
  case Nil
  with assms show ?thesis by simp
next
  case (Cons d ds)
  show ?thesis
  proof (cases "code c = 13 \<and> code d = 10")
    case True
    then have lb: "is_linebreak d" by (simp add: is_linebreak_def)
    with assms Cons have "ds \<noteq> []" by auto
    with Cons True show ?thesis by simp
  next
    case False
    with Cons show ?thesis by auto
  qed
qed

lemma splitlines_last:
  "s \<noteq> [] \<Longrightarrow> \<not> is_linebreak (last s) \<Longrightarrow>
   last (splitlines s) \<noteq> [] \<and> last (last (splitlines s)) = last s"
proof (induction s rule: splitlines.induct)
  case 1
  then show ?case by simp
next
  case (2 c cs)
  show ?case
  proof (cases "cs = []")
    case True
    with "2.prems" show ?thesis by simp
  next
    case ne: False
    with "2.prems" have lcs: "\<not> is_linebreak (last cs)" by simp
    show ?thesis
    proof (cases "is_linebreak c")
      case True
      from after_break_last [OF ne lcs, of c]
      have ab: "after_break c cs \<noteq> []" "last (after_break c cs) = last cs" by auto
      from "2.IH"(1) [OF True ab(1)] ab(2) lcs
      have "last (splitlines (after_break c cs)) \<noteq> [] \<and>
            last (last (splitlines (after_break c cs))) = last cs" by simp
      moreover from ab(1) have "splitlines (after_break c cs) \<noteq> []"
        by (simp add: splitlines_Nil_iff)
      ultimately show ?thesis using True ne by simp
    next
      case False
      from "2.IH"(2) [OF False ne lcs]
      have ih: "last (splitlines cs) \<noteq> [] \<and> last (last (splitlines cs)) = last cs" .
      from ne obtain l ls where sp: "splitlines cs = l # ls"
        by (cases "splitlines cs") (auto simp: splitlines_Nil_iff)
      show ?thesis
        using False ne ih sp by (cases ls) auto
    qed
  qed
qed

lemma splitlines_line:
  "\<not> list_ex is_linebreak l \<Longrightarrow> l \<noteq> [] \<Longrightarrow> splitlines l = [l]"
proof (induction l)
  case Nil
  then show ?case by simp
next
  case (Cons c l)
  then show ?case by (cases l) (auto split: list.splits)
qed

lemma newline_break: "is_linebreak CHR ''\<newline>''" and newline_code: "code CHR ''\<newline>'' = 10"
  by (simp_all add: is_linebreak_def code_def)

lemma splitlines_line_more:
  "\<not> list_ex is_linebreak l \<Longrightarrow> splitlines (l @ ''\<newline>'' @ rest) = l # splitlines rest"
proof (induction l)
  case Nil
  show ?case using newline_break newline_code by (cases rest) auto
next
  case (Cons c l)
  then show ?case by auto
qed

lemma join_Cons: "ls \<noteq> [] \<Longrightarrow> join sep (l # ls) = l @ sep @ join sep ls"
  by (cases ls) auto

lemma join_Nil_iff: "join sep ls = [] \<Longrightarrow> ls \<noteq> [] \<Longrightarrow> hd ls = []"
  by (induction sep ls rule: join.induct) auto

lemma join_hd: "ls \<noteq> [] \<Longrightarrow> hd ls \<noteq> [] \<Longrightarrow> join sep ls \<noteq> [] \<and> hd (join sep ls) = hd (hd ls)"
  by (induction sep ls rule: join.induct) auto

lemma join_last:
  "ls \<noteq> [] \<Longrightarrow> last ls \<noteq> [] \<Longrightarrow> join sep ls \<noteq> [] \<and> last (join sep ls) = last (last ls)"
  by (induction sep ls rule: join.induct) auto

lemma splitlines_join:
  "ls \<noteq> [] \<Longrightarrow> last ls \<noteq> [] \<Longrightarrow> \<forall>l\<in>set ls. \<not> list_ex is_linebreak l \<Longrightarrow>
   splitlines (join ''\<newline>'' ls) = ls"
proof (induction "''\<newline>''" ls rule: join.induct)
  case 1
  then show ?case by simp
next
  case (2 x)
  then show ?case by (simp add: splitlines_line)
next
  case (3 x y ys)
  from "3.prems" have "\<not> list_ex is_linebreak x" by simp
  then have "splitlines (x @ ''\<newline>'' @ join ''\<newline>'' (y # ys)) = x # splitlines (join ''\<newline>'' (y # ys))"
    by (rule splitlines_line_more)
  with 3 show ?case by simp
qed


section \<open>Parsing the block\<close>

lemma parse_todo_block_found:
  assumes "\<not> contains TODO_START pre" and "\<not> contains TODO_END inner"
  shows "parse_todo_block (pre @ TODO_START @ inner @ TODO_END @ post) =
         Some (splitlines (strip inner))"
  using search_block_found [OF assms, of post]
  by (simp add: parse_todo_block_def Let_def)

lemma parse_todo_block_None_iff:
  "parse_todo_block text = None \<longleftrightarrow>
   \<not> (\<exists>pre inner post. text = pre @ TODO_START @ inner @ TODO_END @ post)"
  unfolding search_block_None_iff [symmetric]
  by (auto simp: parse_todo_block_def Let_def split: option.splits)

lemma parse_todo_block_Some:
  assumes "parse_todo_block text = Some ls"
  shows "\<exists>inner. ls = splitlines (strip inner)"
proof (cases "search_block text")
  case None
  with assms show ?thesis by (simp add: parse_todo_block_def)
next
  case (Some a)
  obtain pre inner post where "a = (pre, inner, post)" by (cases a) auto
  with Some assms have "ls = (if strip inner \<noteq> [] then splitlines (strip inner) else [])"
    by (auto simp: parse_todo_block_def Let_def)
  then have "ls = splitlines (strip inner)" by (cases "strip inner = []") simp_all
  then show ?thesis by blast
qed

lemma splitlines_strip_ends:
  assumes "splitlines (strip s) \<noteq> []"
  shows "hd (splitlines (strip s)) \<noteq> [] \<and> \<not> is_space (hd (hd (splitlines (strip s)))) \<and>
         last (splitlines (strip s)) \<noteq> [] \<and> \<not> is_space (last (last (splitlines (strip s))))"
proof -
  from assms have ne: "strip s \<noteq> []" by (auto simp: splitlines_Nil_iff)
  from strip_ends [OF ne] have e: "\<not> is_space (hd (strip s))" "\<not> is_space (last (strip s))"
    by auto
  then have "\<not> is_linebreak (hd (strip s))" "\<not> is_linebreak (last (strip s))"
    using linebreak_is_space by blast+
  with splitlines_hd [OF ne] splitlines_last [OF ne] e show ?thesis by simp
qed

text \<open>
  C9, as the code has it. \<^verbatim>\<open>parse_todo_block\<close> returns \<open>None\<close> exactly when the text
  has no start marker followed, somewhere after it, by an end marker. For the first
  such span (no start marker before it, no end marker inside it) it returns the inner
  text, trimmed and split into lines, and the empty sequence when the inner text is
  blank. No returned line contains a line boundary, and the first and the last
  returned line are not empty and carry no outer whitespace; a line between them may be
  empty.
\<close>

theorem parse_block_lines:
  "(parse_todo_block text = None \<longleftrightarrow>
      \<not> (\<exists>pre inner post. text = pre @ TODO_START @ inner @ TODO_END @ post)) \<and>
   (\<not> contains TODO_START pre \<and> \<not> contains TODO_END inner \<longrightarrow>
      parse_todo_block (pre @ TODO_START @ inner @ TODO_END @ post) =
        Some (splitlines (strip inner))) \<and>
   (\<not> contains TODO_START pre \<and> \<not> contains TODO_END inner \<and> list_all is_space inner \<longrightarrow>
      parse_todo_block (pre @ TODO_START @ inner @ TODO_END @ post) = Some []) \<and>
   (parse_todo_block text = Some ls \<longrightarrow>
      (\<forall>l \<in> set ls. \<not> list_ex is_linebreak l) \<and>
      (ls \<noteq> [] \<longrightarrow> hd ls \<noteq> [] \<and> \<not> is_space (hd (hd ls)) \<and>
                  last ls \<noteq> [] \<and> \<not> is_space (last (last ls))))"
proof (intro conjI impI)
  show "parse_todo_block text = None \<longleftrightarrow>
      \<not> (\<exists>pre inner post. text = pre @ TODO_START @ inner @ TODO_END @ post)"
    by (rule parse_todo_block_None_iff)
next
  assume "\<not> contains TODO_START pre \<and> \<not> contains TODO_END inner"
  then show "parse_todo_block (pre @ TODO_START @ inner @ TODO_END @ post) =
        Some (splitlines (strip inner))"
    by (simp add: parse_todo_block_found)
next
  assume "\<not> contains TODO_START pre \<and> \<not> contains TODO_END inner \<and> list_all is_space inner"
  then show "parse_todo_block (pre @ TODO_START @ inner @ TODO_END @ post) = Some []"
    by (simp add: parse_todo_block_found strip_blank)
next
  assume "parse_todo_block text = Some ls"
  then obtain inner where "ls = splitlines (strip inner)"
    using parse_todo_block_Some by blast
  then show "\<forall>l \<in> set ls. \<not> list_ex is_linebreak l"
    using splitlines_no_break by blast
next
  assume "parse_todo_block text = Some ls" and ne: "ls \<noteq> []"
  then obtain inner where ls: "ls = splitlines (strip inner)"
    using parse_todo_block_Some by blast
  from splitlines_strip_ends [of inner] ne ls
  show "hd ls \<noteq> []" "\<not> is_space (hd (hd ls))" "last ls \<noteq> []" "\<not> is_space (last (last ls))"
    by simp_all
qed

theorem parse_block_lines_witness:
  "parse_todo_block (''x = 1\<newline>'' @ TODO_START @ ''\<newline>(1) a\<newline>\<newline>(2) b \<newline>'' @ TODO_END @ ''\<newline>'') =
     Some [''(1) a'', [], ''(2) b''] \<and>
   parse_todo_block (''x = 1\<newline>'' @ TODO_START @ '' \<newline>'' @ TODO_END @ ''\<newline>'') = Some [] \<and>
   parse_todo_block ''x = 1'' = None"
proof -
  have h: "\<not> contains TODO_START ''x = 1\<newline>'' \<and> \<not> contains TODO_END ''\<newline>(1) a\<newline>\<newline>(2) b \<newline>''"
    by code_simp
  have h': "\<not> contains TODO_START ''x = 1\<newline>'' \<and> \<not> contains TODO_END '' \<newline>'' \<and>
    list_all is_space '' \<newline>''"
    by code_simp
  have s: "splitlines (strip ''\<newline>(1) a\<newline>\<newline>(2) b \<newline>'') = [''(1) a'', [], ''(2) b'']"
    by code_simp
  from parse_block_lines [of "''x = 1''" "''x = 1\<newline>''" "''\<newline>(1) a\<newline>\<newline>(2) b \<newline>''" "''\<newline>''"] h s
  have "parse_todo_block (''x = 1\<newline>'' @ TODO_START @ ''\<newline>(1) a\<newline>\<newline>(2) b \<newline>'' @ TODO_END @ ''\<newline>'') =
     Some [''(1) a'', [], ''(2) b'']" by simp
  moreover
  from parse_block_lines [of "''x = 1''" "''x = 1\<newline>''" "'' \<newline>''" "''\<newline>''"] h'
  have "parse_todo_block (''x = 1\<newline>'' @ TODO_START @ '' \<newline>'' @ TODO_END @ ''\<newline>'') = Some []"
    by blast
  moreover have "parse_todo_block ''x = 1'' = None" by code_simp
  ultimately show ?thesis by blast
qed

text \<open>The claim as written fails: a returned line can be empty.\<close>

theorem parse_block_empty_line_counterexample:
  "parse_todo_block (TODO_START @ ''\<newline>a\<newline>\<newline>b\<newline>'' @ TODO_END) = Some [''a'', [], ''b'']"
  by code_simp


section \<open>Writing the block\<close>

lemma parse_template_literal:
  "CHR 0x5C \<notin> set s \<Longrightarrow> parse_template s = Some (map Lit s)"
  by (induction s) auto

lemma expand_literal: "expand (map Lit s) whole = s"
  by (induction s) (auto simp: expand_def)

lemma sub_block_none: "search_block text = None \<Longrightarrow> sub_block t text = text"
  by (simp add: sub_block.simps)

lemma sub_block_found:
  assumes "\<not> contains TODO_START pre" and "\<not> contains TODO_END inner"
  shows "sub_block t (pre @ TODO_START @ inner @ TODO_END @ post) =
         pre @ expand t (TODO_START @ inner @ TODO_END) @ sub_block t post"
  using search_block_found [OF assms, of post]
  by (subst sub_block.simps) simp

lemma join_no_backslash:
  "\<forall>l\<in>set ls. c \<notin> set l \<Longrightarrow> c \<notin> set sep \<Longrightarrow> c \<notin> set (join sep ls)"
  by (induction sep ls rule: join.induct) auto

lemma new_block_no_backslash:
  assumes "\<forall>l\<in>set todos. CHR 0x5C \<notin> set l"
  shows "CHR 0x5C \<notin> set (new_block todos)"
proof -
  have "CHR 0x5C \<notin> set (join ''\<newline>'' todos)"
    using assms by (intro join_no_backslash) auto
  then show ?thesis by (simp add: new_block_def TODO_START_def TODO_END_def)
qed

lemma re_sub_block_literal:
  assumes "\<forall>l\<in>set todos. CHR 0x5C \<notin> set l"
  shows "re_sub_block (new_block todos) content = Inr (sub_block (map Lit (new_block todos)) content)"
  using parse_template_literal [OF new_block_no_backslash [OF assms]]
  by (simp add: re_sub_block_def)

text \<open>
  A text cut into its spans: each pair is the text before a span, free of the start
  marker, and the inner text of the span, free of the end marker; \<open>tail\<close> is what
  follows the last span.
\<close>

definition spans_text :: "(string \<times> string) list \<Rightarrow> string \<Rightarrow> string" where
  "spans_text gs tail =
     concat (map (\<lambda>(g, inner). g @ TODO_START @ inner @ TODO_END) gs) @ tail"

definition replaced_text :: "string \<Rightarrow> (string \<times> string) list \<Rightarrow> string \<Rightarrow> string" where
  "replaced_text block gs tail = concat (map (\<lambda>(g, inner). g @ block) gs) @ tail"

lemma sub_block_spans:
  assumes "\<forall>(g, inner) \<in> set gs. \<not> contains TODO_START g \<and> \<not> contains TODO_END inner"
    and "\<not> (\<exists>a b c. tail = a @ TODO_START @ b @ TODO_END @ c)"
  shows "sub_block (map Lit block) (spans_text gs tail) = replaced_text block gs tail"
  using assms(1)
proof (induction gs)
  case Nil
  from assms(2) have "search_block tail = None" by (simp add: search_block_None_iff)
  then show ?case by (simp add: spans_text_def replaced_text_def sub_block_none)
next
  case (Cons p gs)
  obtain g inner where p: "p = (g, inner)" by (cases p) auto
  with Cons.prems have gi: "\<not> contains TODO_START g" "\<not> contains TODO_END inner" by auto
  have "spans_text (p # gs) tail = g @ TODO_START @ inner @ TODO_END @ spans_text gs tail"
    by (simp add: spans_text_def p)
  moreover have "sub_block (map Lit block) (spans_text gs tail) = replaced_text block gs tail"
    using Cons by simp
  ultimately show ?case
    using sub_block_found [OF gi, of "map Lit block" "spans_text gs tail"]
    by (simp add: expand_literal replaced_text_def p)
qed


lemma spans_text_contains:
  assumes "gs \<noteq> []"
  shows "contains TODO_START (spans_text gs tail) \<and> contains TODO_END (spans_text gs tail)"
proof -
  from assms obtain g inner gs' where gs: "gs = (g, inner) # gs'"
    by (cases gs) auto
  have "spans_text gs tail = g @ TODO_START @ (inner @ TODO_END @ spans_text gs' tail)"
    by (simp add: spans_text_def gs)
  moreover have "spans_text gs tail = (g @ TODO_START @ inner) @ TODO_END @ spans_text gs' tail"
    by (simp add: spans_text_def gs)
  ultimately show ?thesis unfolding contains_iff by blast
qed

text \<open>Every text is cut into its spans in this way.\<close>

lemma spans_exist:
  "\<exists>gs tail. s = spans_text gs tail \<and>
     (\<forall>(g, inner) \<in> set gs. \<not> contains TODO_START g \<and> \<not> contains TODO_END inner) \<and>
     \<not> (\<exists>a b c. tail = a @ TODO_START @ b @ TODO_END @ c)"
proof (induction s rule: length_induct)
  case (1 s)
  show ?case
  proof (cases "search_block s")
    case None
    then have "\<not> (\<exists>a b c. s = a @ TODO_START @ b @ TODO_END @ c)"
      by (simp add: search_block_None_iff)
    moreover have "s = spans_text [] s" by (simp add: spans_text_def)
    ultimately show ?thesis by (intro exI [of _ "[]"] exI [of _ s]) simp
  next
    case (Some a)
    obtain pre inner post where a: "a = (pre, inner, post)" by (cases a) auto
    with Some have f: "s = pre @ TODO_START @ inner @ TODO_END @ post"
      "\<not> contains TODO_START pre" "\<not> contains TODO_END inner"
      using search_block_first by blast+
    from f(1) have "length post < length s" by (simp add: TODO_START_nonempty)
    with 1 obtain gs tail where
      gt: "post = spans_text gs tail"
          "\<forall>(g, inner) \<in> set gs. \<not> contains TODO_START g \<and> \<not> contains TODO_END inner"
          "\<not> (\<exists>a b c. tail = a @ TODO_START @ b @ TODO_END @ c)"
      by blast
    have "s = spans_text ((pre, inner) # gs) tail"
      using f(1) gt(1) by (simp add: spans_text_def)
    moreover have "\<forall>(g, inner) \<in> set ((pre, inner) # gs).
        \<not> contains TODO_START g \<and> \<not> contains TODO_END inner"
      using f(2,3) gt(2) by simp
    ultimately show ?thesis using gt(3) by blast
  qed
qed

text \<open>
  C8, as the code has it. When the text lacks one of the markers, \<^verbatim>\<open>write_block\<close>
  appends a newline and the new block. Otherwise, for lines without backslash, it
  replaces every span of the text by the new block, not only the first, and leaves the
  text before, between and after the spans as it is; a text that has both markers but
  no span (\<open>gs\<close> empty) is returned unchanged. Every text is cut into spans in the way
  the statement has it.
\<close>

theorem write_block_replaces_every_span:
  "(\<not> (contains TODO_START text \<and> contains TODO_END text) \<longrightarrow>
      write_block text todos = Inr (text @ ''\<newline>'' @ new_block todos)) \<and>
   ((\<forall>l \<in> set todos. CHR 0x5C \<notin> set l) \<and>
    (\<forall>(g, inner) \<in> set gs. \<not> contains TODO_START g \<and> \<not> contains TODO_END inner) \<and>
    \<not> (\<exists>a b c. tail = a @ TODO_START @ b @ TODO_END @ c) \<and>
    (gs \<noteq> [] \<or> contains TODO_START tail \<and> contains TODO_END tail) \<longrightarrow>
      write_block (spans_text gs tail) todos = Inr (replaced_text (new_block todos) gs tail)) \<and>
   (\<exists>gs tail. text = spans_text gs tail \<and>
      (\<forall>(g, inner) \<in> set gs. \<not> contains TODO_START g \<and> \<not> contains TODO_END inner) \<and>
      \<not> (\<exists>a b c. tail = a @ TODO_START @ b @ TODO_END @ c))"
proof (intro conjI impI)
  assume "\<not> (contains TODO_START text \<and> contains TODO_END text)"
  then show "write_block text todos = Inr (text @ ''\<newline>'' @ new_block todos)"
    by (auto simp: write_block_def)
next
  assume a: "(\<forall>l \<in> set todos. CHR 0x5C \<notin> set l) \<and>
    (\<forall>(g, inner) \<in> set gs. \<not> contains TODO_START g \<and> \<not> contains TODO_END inner) \<and>
    \<not> (\<exists>a b c. tail = a @ TODO_START @ b @ TODO_END @ c) \<and>
    (gs \<noteq> [] \<or> contains TODO_START tail \<and> contains TODO_END tail)"
  have both: "contains TODO_START (spans_text gs tail) \<and> contains TODO_END (spans_text gs tail)"
  proof (cases "gs = []")
    case True
    with a show ?thesis by (simp add: spans_text_def)
  next
    case False
    then show ?thesis by (rule spans_text_contains)
  qed
  from a have "re_sub_block (new_block todos) (spans_text gs tail) =
      Inr (sub_block (map Lit (new_block todos)) (spans_text gs tail))"
    by (intro re_sub_block_literal) blast
  also from a have "sub_block (map Lit (new_block todos)) (spans_text gs tail) =
      replaced_text (new_block todos) gs tail"
    by (intro sub_block_spans) blast+
  finally show "write_block (spans_text gs tail) todos =
      Inr (replaced_text (new_block todos) gs tail)"
    using both by (simp add: write_block_def)
next
  show "\<exists>gs tail. text = spans_text gs tail \<and>
      (\<forall>(g, inner) \<in> set gs. \<not> contains TODO_START g \<and> \<not> contains TODO_END inner) \<and>
      \<not> (\<exists>a b c. tail = a @ TODO_START @ b @ TODO_END @ c)"
    by (rule spans_exist)
qed

theorem write_block_replaces_every_span_witness:
  "write_block (''x = 1\<newline>'' @ TODO_START @ ''\<newline>(1) a\<newline>'' @ TODO_END @ ''\<newline>y = 2'')
     [''(1) a'', ''(2) b''] =
     Inr (''x = 1\<newline>'' @ TODO_START @ ''\<newline>(1) a\<newline>(2) b\<newline>'' @ TODO_END @ ''\<newline>y = 2'') \<and>
   write_block ''x = 1'' [''(1) a''] =
     Inr (''x = 1\<newline>'' @ TODO_START @ ''\<newline>(1) a\<newline>'' @ TODO_END)"
proof -
  let ?gs = "[(''x = 1\<newline>'', ''\<newline>(1) a\<newline>'')]"
  let ?todos = "[''(1) a'', ''(2) b'']"
  have "search_block ''\<newline>y = 2'' = None" by code_simp
  then have h3: "\<not> (\<exists>a b c. ''\<newline>y = 2'' = a @ TODO_START @ b @ TODO_END @ c)"
    using search_block_None_iff by blast
  have h1: "\<forall>l \<in> set ?todos. CHR 0x5C \<notin> set l" by simp
  have h2: "\<forall>(g, inner) \<in> set ?gs. \<not> contains TODO_START g \<and> \<not> contains TODO_END inner"
    by code_simp
  have h4: "?gs \<noteq> [] \<or> contains TODO_START ''\<newline>y = 2'' \<and> contains TODO_END ''\<newline>y = 2''"
    by simp
  from write_block_replaces_every_span [of "''x = 1''" ?todos ?gs "''\<newline>y = 2''"]
  have 1: "write_block (spans_text ?gs ''\<newline>y = 2'') ?todos =
      Inr (replaced_text (new_block ?todos) ?gs ''\<newline>y = 2'')"
    using h1 h2 h3 h4 by blast
  from write_block_replaces_every_span [of "''x = 1''" "[''(1) a'']" ?gs "''\<newline>y = 2''"]
  have 2: "\<not> (contains TODO_START ''x = 1'' \<and> contains TODO_END ''x = 1'') \<longrightarrow>
      write_block ''x = 1'' [''(1) a''] = Inr (''x = 1'' @ ''\<newline>'' @ new_block [''(1) a''])"
    by blast
  have "\<not> (contains TODO_START ''x = 1'' \<and> contains TODO_END ''x = 1'')" by code_simp
  with 2 have "write_block ''x = 1'' [''(1) a''] = Inr (''x = 1'' @ ''\<newline>'' @ new_block [''(1) a''])"
    by blast
  then have b: "write_block ''x = 1'' [''(1) a''] =
     Inr (''x = 1\<newline>'' @ TODO_START @ ''\<newline>(1) a\<newline>'' @ TODO_END)"
    by (simp add: new_block_def)
  from 1 have "write_block (''x = 1\<newline>'' @ TODO_START @ ''\<newline>(1) a\<newline>'' @ TODO_END @ ''\<newline>y = 2'')
     [''(1) a'', ''(2) b''] =
     Inr (''x = 1\<newline>'' @ TODO_START @ ''\<newline>(1) a\<newline>(2) b\<newline>'' @ TODO_END @ ''\<newline>y = 2'')"
    by (simp add: spans_text_def replaced_text_def new_block_def)
  with b show ?thesis by blast
qed

text \<open>The claim as written fails: a later span does not stay as it was.\<close>

theorem write_block_later_span_counterexample:
  "write_block (TODO_START @ ''p'' @ TODO_END @ ''x'' @ TODO_START @ ''q'' @ TODO_END) [''a''] =
     Inr (TODO_START @ ''\<newline>a\<newline>'' @ TODO_END @ ''x'' @ TODO_START @ ''\<newline>a\<newline>'' @ TODO_END) \<and>
   TODO_START @ ''\<newline>a\<newline>'' @ TODO_END @ ''x'' @ TODO_START @ ''\<newline>a\<newline>'' @ TODO_END \<noteq>
   TODO_START @ ''\<newline>a\<newline>'' @ TODO_END @ ''x'' @ TODO_START @ ''q'' @ TODO_END"
  by code_simp


section \<open>The round trip\<close>

lemma prefix_before_sep:
  assumes "prefix pat (u @ c # b)" and "c \<notin> set pat"
  shows "prefix pat u"
proof -
  from assms(1) consider "prefix pat u" | us where "pat = u @ us" "prefix us (c # b)"
    by (auto simp: prefix_append)
  then show ?thesis
  proof cases
    case 1
    then show ?thesis .
  next
    case 2
    with assms(2) have "us = []" by (cases us) auto
    with 2 show ?thesis by simp
  qed
qed

lemma contains_sep:
  "c \<notin> set pat \<Longrightarrow> contains pat (a @ c # b) \<Longrightarrow> contains pat a \<or> contains pat b"
proof (induction a)
  case Nil
  then have "prefix pat (c # b) \<or> contains pat b" by (simp add: contains_Cons)
  then show ?case
  proof
    assume "prefix pat (c # b)"
    then have "prefix pat ([] @ c # b)" by simp
    from prefix_before_sep [OF this Nil.prems(1)] show ?thesis by (simp add: contains_Nil)
  next
    assume "contains pat b"
    then show ?thesis by simp
  qed
next
  case (Cons x a)
  from Cons.prems(2) have "prefix pat ((x # a) @ c # b) \<or> contains pat (a @ c # b)"
    by (simp add: contains_Cons)
  then show ?case
  proof
    assume "prefix pat ((x # a) @ c # b)"
    from prefix_before_sep [OF this Cons.prems(1)] show ?thesis by (simp add: contains_Cons)
  next
    assume "contains pat (a @ c # b)"
    with Cons.IH Cons.prems(1) show ?thesis by (auto simp: contains_Cons)
  qed
qed

lemma contains_join:
  "c \<notin> set pat \<Longrightarrow> pat \<noteq> [] \<Longrightarrow> contains pat (join [c] ls) \<Longrightarrow> \<exists>l\<in>set ls. contains pat l"
proof (induction "[c]" ls rule: join.induct)
  case 1
  then show ?case by (simp add: contains_Nil)
next
  case (2 x)
  then show ?case by simp
next
  case (3 x y ys)
  from "3.prems"(3) have "contains pat (x @ c # join [c] (y # ys))" by simp
  from contains_sep [OF "3.prems"(1) this] "3.hyps" "3.prems"(1,2) show ?case by auto
qed

lemma newline_not_in_markers:
  "CHR ''\<newline>'' \<notin> set TODO_START" "CHR ''\<newline>'' \<notin> set TODO_END"
  by (simp_all add: TODO_START_def TODO_END_def)

lemma newline_space: "is_space CHR ''\<newline>''"
  by (simp add: is_space_def code_def)

text \<open>What parsing finds in a text whose first span is a block written by the program.\<close>

lemma parse_new_block:
  assumes lines: "\<forall>l \<in> set ls. \<not> contains TODO_END l \<and> \<not> list_ex is_linebreak l"
    and ends: "ls \<noteq> [] \<longrightarrow> hd ls \<noteq> [] \<and> \<not> is_space (hd (hd ls)) \<and>
               last ls \<noteq> [] \<and> \<not> is_space (last (last ls))"
    and pre: "\<not> contains TODO_START pre"
  shows "parse_todo_block (pre @ new_block ls @ post) = Some ls"
proof -
  define J where "J = join ''\<newline>'' ls"
  have nb: "pre @ new_block ls @ post = pre @ TODO_START @ (''\<newline>'' @ J @ ''\<newline>'') @ TODO_END @ post"
    by (simp add: new_block_def J_def)
  have noJ: "\<not> contains TODO_END J"
  proof
    assume "contains TODO_END J"
    then have "\<exists>l\<in>set ls. contains TODO_END l"
      unfolding J_def
      using contains_join [OF newline_not_in_markers(2) TODO_END_nonempty] by simp
    with lines show False by blast
  qed
  have noinner: "\<not> contains TODO_END (''\<newline>'' @ J @ ''\<newline>'')"
  proof
    assume "contains TODO_END (''\<newline>'' @ J @ ''\<newline>'')"
    then have "contains TODO_END ([] @ CHR ''\<newline>'' # (J @ ''\<newline>''))" by simp
    from contains_sep [OF newline_not_in_markers(2) this]
    have "contains TODO_END (J @ CHR ''\<newline>'' # [])" by (simp add: contains_Nil TODO_END_nonempty)
    from contains_sep [OF newline_not_in_markers(2) this] noJ
    show False by (simp add: contains_Nil TODO_END_nonempty)
  qed
  have "strip (''\<newline>'' @ J @ ''\<newline>'') = strip J"
    by (intro strip_pad) (simp_all add: newline_space)
  moreover have "splitlines (strip J) = ls"
  proof (cases "ls = []")
    case True
    then show ?thesis by (simp add: J_def)
  next
    case False
    with ends have e: "hd ls \<noteq> []" "\<not> is_space (hd (hd ls))" "last ls \<noteq> []"
      "\<not> is_space (last (last ls))" by auto
    from join_hd [OF False e(1), of "''\<newline>''"] join_last [OF False e(3), of "''\<newline>''"] e
    have "J \<noteq> []" "\<not> is_space (hd J)" "\<not> is_space (last J)" by (auto simp: J_def)
    then have "strip J = J" by (rule strip_id)
    moreover have "splitlines J = ls"
      unfolding J_def using False e(3) lines by (intro splitlines_join) auto
    ultimately show ?thesis by simp
  qed
  ultimately show ?thesis
    unfolding nb using parse_todo_block_found [OF pre noinner, of post] by simp
qed

text \<open>
  C1, as the code has it. The round trip holds for every text whose first start
  marker, if it has one, is followed by an end marker, and every sequence of lines
  without marker and without line boundary that is empty or whose first line does not
  begin and whose last line does not end with whitespace, neither being empty; when the
  text has a block, the lines must not contain a backslash. Then \<^verbatim>\<open>write_block\<close>
  returns a text, and \<^verbatim>\<open>parse_todo_block\<close> of it is the sequence of lines.
\<close>

theorem parse_write_round_trip:
  assumes lines: "\<forall>l \<in> set ls. \<not> contains TODO_START l \<and> \<not> contains TODO_END l \<and>
                    \<not> list_ex is_linebreak l"
    and ends: "ls \<noteq> [] \<longrightarrow> hd ls \<noteq> [] \<and> \<not> is_space (hd (hd ls)) \<and>
               last ls \<noteq> [] \<and> \<not> is_space (last (last ls))"
    and tx: "\<not> contains TODO_START text \<or>
              (\<exists>pre inner post. text = pre @ TODO_START @ inner @ TODO_END @ post) \<and>
              (\<forall>l \<in> set ls. CHR 0x5C \<notin> set l)"
  shows "\<exists>t. write_block text ls = Inr t \<and> parse_todo_block t = Some ls"
proof -
  from lines have lines': "\<forall>l \<in> set ls. \<not> contains TODO_END l \<and> \<not> list_ex is_linebreak l"
    by blast
  from tx show ?thesis
  proof
    assume no: "\<not> contains TODO_START text"
    then have w: "write_block text ls = Inr ((text @ ''\<newline>'') @ new_block ls @ [])"
      by (simp add: write_block_def)
    have "\<not> contains TODO_START (text @ ''\<newline>'')"
    proof
      assume "contains TODO_START (text @ ''\<newline>'')"
      then have "contains TODO_START (text @ CHR ''\<newline>'' # [])" by simp
      from contains_sep [OF newline_not_in_markers(1) this] no
      show False by (simp add: contains_Nil TODO_START_nonempty)
    qed
    from parse_new_block [OF lines' ends this, of "[]"] w show ?thesis by blast
  next
    assume a: "(\<exists>pre inner post. text = pre @ TODO_START @ inner @ TODO_END @ post) \<and>
              (\<forall>l \<in> set ls. CHR 0x5C \<notin> set l)"
    then have both: "contains TODO_START text" "contains TODO_END text"
      unfolding contains_iff by (metis append.assoc)+
    from a have "search_block text \<noteq> None" by (simp add: search_block_None_iff)
    then obtain pre inner post where s: "search_block text = Some (pre, inner, post)"
      by auto
    then have f: "text = pre @ TODO_START @ inner @ TODO_END @ post"
      "\<not> contains TODO_START pre" "\<not> contains TODO_END inner"
      using search_block_first by blast+
    define t where "t = map Lit (new_block ls)"
    from a have "re_sub_block (new_block ls) text = Inr (sub_block t text)"
      unfolding t_def by (intro re_sub_block_literal) blast
    moreover have "sub_block t text = pre @ new_block ls @ sub_block t post"
      unfolding f(1) t_def using sub_block_found [OF f(2,3)] by (simp add: expand_literal)
    ultimately have w: "write_block text ls = Inr (pre @ new_block ls @ sub_block t post)"
      using both by (simp add: write_block_def)
    from parse_new_block [OF lines' ends f(2), of "sub_block t post"] w show ?thesis by blast
  qed
qed

theorem parse_write_round_trip_witness:
  "write_block (''x = 1\<newline>'' @ TODO_START @ ''\<newline>(1) old\<newline>'' @ TODO_END @ ''\<newline>'')
     [''(1) a'', [], ''(2) b c''] =
     Inr (''x = 1\<newline>'' @ TODO_START @ ''\<newline>(1) a\<newline>\<newline>(2) b c\<newline>'' @ TODO_END @ ''\<newline>'') \<and>
   parse_todo_block (''x = 1\<newline>'' @ TODO_START @ ''\<newline>(1) a\<newline>\<newline>(2) b c\<newline>'' @ TODO_END @ ''\<newline>'') =
     Some [''(1) a'', [], ''(2) b c'']"
proof -
  let ?ls = "[''(1) a'', [], ''(2) b c'']"
  let ?text = "''x = 1\<newline>'' @ TODO_START @ ''\<newline>(1) old\<newline>'' @ TODO_END @ ''\<newline>''"
  have h1: "\<forall>l \<in> set ?ls. \<not> contains TODO_START l \<and> \<not> contains TODO_END l \<and>
                    \<not> list_ex is_linebreak l"
    by code_simp
  have h2: "?ls \<noteq> [] \<longrightarrow> hd ?ls \<noteq> [] \<and> \<not> is_space (hd (hd ?ls)) \<and>
               last ?ls \<noteq> [] \<and> \<not> is_space (last (last ?ls))"
    by code_simp
  have "\<exists>pre inner post. ?text = pre @ TODO_START @ inner @ TODO_END @ post" by blast
  moreover have "\<forall>l \<in> set ?ls. CHR 0x5C \<notin> set l" by simp
  ultimately have h3: "\<not> contains TODO_START ?text \<or>
              (\<exists>pre inner post. ?text = pre @ TODO_START @ inner @ TODO_END @ post) \<and>
              (\<forall>l \<in> set ?ls. CHR 0x5C \<notin> set l)" by blast
  from parse_write_round_trip [OF h1 h2 h3] obtain t where
    t: "write_block ?text ?ls = Inr t" "parse_todo_block t = Some ?ls" by blast
  have "write_block ?text ?ls =
     Inr (''x = 1\<newline>'' @ TODO_START @ ''\<newline>(1) a\<newline>\<newline>(2) b c\<newline>'' @ TODO_END @ ''\<newline>'')"
    by code_simp
  with t show ?thesis by simp
qed

text \<open>The claim as written fails: the trailing space of a line is lost.\<close>

theorem parse_write_round_trip_counterexample:
  "write_block [] [''(1) a ''] = Inr (''\<newline>'' @ TODO_START @ ''\<newline>(1) a \<newline>'' @ TODO_END) \<and>
   parse_todo_block (''\<newline>'' @ TODO_START @ ''\<newline>(1) a \<newline>'' @ TODO_END) = Some [''(1) a''] \<and>
   [''(1) a''] \<noteq> [''(1) a '']"
  by code_simp

end
